theory Spec2Isabelle
  imports Complex_Main "HOL-Library.Word" "HOL-Library.Stream" "HOL-Library.Monad_Syntax"
begin

section \<open>The memory the MEX function works on\<close>

text \<open>
  \<^verbatim>\<open>m3f_tib_sampleOffsets.c\<close> receives MATLAB arrays and rewrites the \<^verbatim>\<open>c\<close> and
  \<^verbatim>\<open>d\<close> matrices in place. Every array is a named cell of an explicit store, and a C
  pointer argument is the name of the array it points to, so that \<^verbatim>\<open>sampleOffsets\<close> can
  be called with the roles of the arrays exchanged, exactly as \<^verbatim>\<open>mexFunction\<close> does.

  Conventions of the embedding:
  \<^item> \<^verbatim>\<open>double\<close> is \<^typ>\<open>real\<close>: the arithmetic is the exact one, without rounding,
    infinities or NaN;
  \<^item> \<^verbatim>\<open>uint32_t\<close> is \<^typ>\<open>32 word\<close>, with C's wrap-around; \<^verbatim>\<open>int\<close> is \<^typ>\<open>int\<close>
    (sizes are taken to stay below \<open>2^31\<close>);
  \<^item> a read or write outside an array is undefined behaviour in C; here the result of
    the whole call is then \<open>None\<close>.
\<close>

type_synonym uint32 = "32 word"

datatype dbl_array = Arr_c | Arr_d | Arr_resids

datatype u32_array = Arr_users | Arr_items | Arr_zU | Arr_zM

datatype jag_array = Arr_exampsByUser | Arr_exampsByItem

text \<open>
  Modelled from the spec: \<^verbatim>\<open>getRngArray\<close> of \<^verbatim>\<open>mexUtil.h\<close> is not part of the sources
  at hand. It returns the process-wide array of generators, one per thread; that array is
  the field \<open>rngs\<close> of the store. The state of a GSL generator is represented by the
  standard Gaussian deviates it is still going to deliver.
\<close>

type_synonym gsl_rng = "real stream"

record store =
  dbl :: "dbl_array \<Rightarrow> real list"
  u32 :: "u32_array \<Rightarrow> uint32 list"
  jag :: "jag_array \<Rightarrow> uint32 list list"
  rngs :: "gsl_rng list"

definition rd :: "'a list \<Rightarrow> int \<Rightarrow> 'a option" where
  "rd xs i = (if 0 \<le> i \<and> i < int (length xs) then Some (xs ! nat i) else None)"

definition wr :: "'a list \<Rightarrow> int \<Rightarrow> 'a \<Rightarrow> 'a list option" where
  "wr xs i v = (if 0 \<le> i \<and> i < int (length xs) then Some (xs[nat i := v]) else None)"

definition wr_dbl :: "store \<Rightarrow> dbl_array \<Rightarrow> int \<Rightarrow> real \<Rightarrow> store option" where
  "wr_dbl s p i v = do {
     xs \<leftarrow> wr (dbl s p) i v;
     Some (s\<lparr>dbl := (dbl s)(p := xs)\<rparr>) }"

section \<open>Helpers of mexUtil.h and of the GSL\<close>

text \<open>
  Modelled from the spec: \<^verbatim>\<open>fillArrayD\<close> and \<^verbatim>\<open>fillArrayI\<close> of \<^verbatim>\<open>mexUtil.h\<close> are not
  part of the sources at hand. The spec's step 1 (initialise the per-topic accumulators
  to 0) and the call sites \<^verbatim>\<open>fillArrayD(cPtr, KM, 0)\<close>, \<^verbatim>\<open>fillArrayI(counts[thread], KM, 0)\<close>
  fix what they do: the \<open>n\<close> cells from the pointer on are set to the value.
\<close>

definition fillArray :: "'a list \<Rightarrow> int \<Rightarrow> int \<Rightarrow> 'a \<Rightarrow> 'a list option" where
  "fillArray xs p n v =
     (if n \<le> 0 then Some xs
      else if 0 \<le> p \<and> p + n \<le> int (length xs)
      then Some (take (nat p) xs @ replicate (nat n) v @ drop (nat (p + n)) xs)
      else None)"

definition fillArrayD :: "store \<Rightarrow> dbl_array \<Rightarrow> int \<Rightarrow> int \<Rightarrow> real \<Rightarrow> store option" where
  "fillArrayD s p ofs n v = do {
     xs \<leftarrow> fillArray (dbl s p) ofs n v;
     Some (s\<lparr>dbl := (dbl s)(p := xs)\<rparr>) }"

definition fillArrayI :: "int list \<Rightarrow> int \<Rightarrow> int \<Rightarrow> int list option" where
  "fillArrayI buf n v = fillArray buf 0 n v"

text \<open>
  Modelled from the spec: \<^verbatim>\<open>unpackJagged\<close> of \<^verbatim>\<open>mexUtil.h\<close> is not part of the sources
  at hand. It yields, for each of the first \<open>numUsers\<close> cells of the jagged array, the
  list of (one-based) interaction indices of that entity; the length array
  \<^verbatim>\<open>userLens\<close> is the length of each list.
\<close>

definition unpackJagged :: "uint32 list list \<Rightarrow> int \<Rightarrow> uint32 list list option" where
  "unpackJagged cells numUsers =
     (if numUsers \<le> int (length cells) then Some (take (nat numUsers) cells) else None)"

text \<open>
  What the code takes from its platform: the constant \<^verbatim>\<open>MAX_NUM_THREADS\<close> of
  \<^verbatim>\<open>mexCommon.h\<close> (not part of the sources at hand), the number \<open>PTR_INTS\<close> of ints
  that fit into a pointer (\<^verbatim>\<open>sizeof(int*) / sizeof(int)\<close>: 2 on an LP64 platform, 1 on
  a 32-bit one), and the content \<open>fresh t k\<close> that \<^verbatim>\<open>mxMalloc\<close> leaves in cell \<open>k\<close> of
  the block of thread \<open>t\<close>, which C does not specify.
\<close>

record platform =
  MAX_NUM_THREADS :: nat
  PTR_INTS :: nat
  fresh :: "nat \<Rightarrow> nat \<Rightarrow> int"

text \<open>
  \<^verbatim>\<open>counts[thread] = mxMalloc(KM*sizeof(*counts))\<close> for each thread (line 85). The
  element size is that of \<^verbatim>\<open>*counts\<close>, an \<^verbatim>\<open>int*\<close>, so the block holds
  \<open>KM * PTR_INTS\<close> ints, of which \<^verbatim>\<open>fillArrayI\<close> sets the first \<open>KM\<close> before each use.
  A negative \<open>KM\<close> is a failed allocation.
\<close>

definition mxMalloc_counts :: "platform \<Rightarrow> int \<Rightarrow> int list list option" where
  "mxMalloc_counts pf KM =
     (if KM < 0 then None
      else Some (map (\<lambda>t. map (fresh pf t) [0..<nat KM * PTR_INTS pf]) [0..<MAX_NUM_THREADS pf]))"

text \<open>
  \<^verbatim>\<open>gsl_ran_gaussian(r, sigma)\<close> of the GNU Scientific Library: a Gaussian deviate of
  mean 0 and standard deviation \<open>sigma\<close>, which is \<open>sigma\<close> times the next standard
  deviate of the generator; the generator advances.
\<close>

definition gsl_ran_gaussian :: "gsl_rng \<Rightarrow> real \<Rightarrow> real \<times> gsl_rng" where
  "gsl_ran_gaussian r sigma = (sigma * shd r, stl r)"

section \<open>sampleOffsets\<close>

text \<open>The parameters of \<^verbatim>\<open>sampleOffsets\<close>, pointers being array names.\<close>

record params =
  users :: u32_array
  items :: u32_array
  exampsByUser :: jag_array
  KU :: int
  KM :: int
  numUsers :: int
  invSigmaSqd :: real
  invSigmaSqd0 :: real
  c0 :: real
  c :: dbl_array
  d :: dbl_array
  zU :: u32_array
  zM :: u32_array
  resids :: dbl_array

text \<open>\<^verbatim>\<open>const double ratio = c0*invSigmaSqd0;\<close>\<close>

definition ratio :: "params \<Rightarrow> real" where
  "ratio a = c0 a * invSigmaSqd0 a"

text \<open>
  The loop over \<open>j\<close> (lines 100 to 109): the sufficient statistics of one user.
  \<open>cPtr\<close> is the offset \<open>u*KM\<close> of the user's row in \<open>c\<close>, \<open>cnt\<close> is
  \<^verbatim>\<open>counts[thread]\<close>, the list is \<^verbatim>\<open>examps[j]\<close> for \<open>j < len\<close>.
\<close>

fun sufficientStats ::
  "params \<Rightarrow> int \<Rightarrow> uint32 list \<Rightarrow> store \<times> int list \<Rightarrow> (store \<times> int list) option" where
  "sufficientStats a cPtr [] (s, cnt) = Some (s, cnt)"
| "sufficientStats a cPtr (x # examps) (s, cnt) = do {
     let e = uint (x - 1);
     zm \<leftarrow> rd (u32 s (zM a)) e;
     let i = sint (zm - 1);
     s' \<leftarrow> (if KU a > 0 then do {
               r \<leftarrow> rd (dbl s (resids a)) e;
               it \<leftarrow> rd (u32 s (items a)) e;
               zu \<leftarrow> rd (u32 s (zU a)) e;
               dv \<leftarrow> rd (dbl s (d a)) (uint ((it - 1) * word_of_int (KU a) + (zu - 1)));
               old \<leftarrow> rd (dbl s (c a)) (cPtr + i);
               wr_dbl s (c a) (cPtr + i) (old + (r - dv)) }
             else do {
               r \<leftarrow> rd (dbl s (resids a)) e;
               old \<leftarrow> rd (dbl s (c a)) (cPtr + i);
               wr_dbl s (c a) (cPtr + i) (old + r) });
     n \<leftarrow> rd cnt i;
     cnt' \<leftarrow> wr cnt i (n + 1);
     sufficientStats a cPtr examps (s', cnt') }"

text \<open>
  The loop over \<open>i\<close> (lines 112 to 116): the new offsets of one user, drawn with the
  generator of the thread that runs the iteration.
\<close>

fun sampleNew :: "params \<Rightarrow> nat \<Rightarrow> int \<Rightarrow> int list \<Rightarrow> nat list \<Rightarrow> store \<Rightarrow> store option" where
  "sampleNew a thread cPtr cnt [] s = Some s"
| "sampleNew a thread cPtr cnt (i # is) s = do {
     n \<leftarrow> rd cnt (int i);
     let variance = 1 / (invSigmaSqd0 a + of_int n * invSigmaSqd a);
     old \<leftarrow> rd (dbl s (c a)) (cPtr + int i);
     r \<leftarrow> rd (rngs s) (int thread);
     let (g, r') = gsl_ran_gaussian r (sqrt variance);
     s' \<leftarrow> wr_dbl (s\<lparr>rngs := (rngs s)[thread := r']\<rparr>) (c a) (cPtr + int i)
            ((ratio a + old * invSigmaSqd a) * variance + g);
     sampleNew a thread cPtr cnt is s' }"

text \<open>
  The first half of the body of the loop over \<open>u\<close> (lines 89 to 109): the row of \<open>u\<close>
  and the counters of the thread are set to 0, then the statistics are accumulated.
\<close>

definition userStats ::
  "params \<Rightarrow> uint32 list list \<Rightarrow> nat \<Rightarrow> nat \<Rightarrow> store \<times> int list list
     \<Rightarrow> (store \<times> int list) option" where
  "userStats a userExamps thread u = (\<lambda>(s, counts). do {
     let cPtr = int u * KM a;
     s1 \<leftarrow> fillArrayD s (c a) cPtr (KM a) 0;
     buf \<leftarrow> rd counts (int thread);
     buf0 \<leftarrow> fillArrayI buf (KM a) 0;
     examps \<leftarrow> rd userExamps (int u);
     sufficientStats a cPtr examps (s1, buf0) })"

text \<open>The whole body of the loop over \<open>u\<close> (lines 89 to 116).\<close>

definition userIter ::
  "params \<Rightarrow> uint32 list list \<Rightarrow> nat \<Rightarrow> nat \<Rightarrow> store \<times> int list list
     \<Rightarrow> (store \<times> int list list) option" where
  "userIter a userExamps thread u = (\<lambda>(s, counts). do {
     (s2, buf) \<leftarrow> userStats a userExamps thread u (s, counts);
     s3 \<leftarrow> sampleNew a thread (int u * KM a) buf [0..<nat (KM a)] s2;
     Some (s3, counts[thread := buf]) })"

text \<open>
  The loop over \<open>u\<close> (line 88). The pragma gives each iteration to some thread:
  \<open>sched u\<close> is the value of \<^verbatim>\<open>omp_get_thread_num()\<close> in iteration \<open>u\<close>. Each thread
  runs its own iterations in increasing order, and as long as the topic ids are in range
  the iterations of different threads touch different rows, counters and generators; the
  loop is taken in the order of \<open>u\<close>.
\<close>

fun userLoop ::
  "params \<Rightarrow> uint32 list list \<Rightarrow> (nat \<Rightarrow> nat) \<Rightarrow> nat list \<Rightarrow> store \<times> int list list
     \<Rightarrow> (store \<times> int list list) option" where
  "userLoop a userExamps sched [] st = Some st"
| "userLoop a userExamps sched (u # us) st = do {
     st' \<leftarrow> userIter a userExamps (sched u) u st;
     userLoop a userExamps sched us st' }"

definition sampleOffsets :: "platform \<Rightarrow> (nat \<Rightarrow> nat) \<Rightarrow> params \<Rightarrow> store \<Rightarrow> store option" where
  "sampleOffsets pf sched a s = do {
     userExamps \<leftarrow> unpackJagged (jag s (exampsByUser a)) (numUsers a);
     counts \<leftarrow> mxMalloc_counts pf (KM a);
     (s', counts') \<leftarrow> userLoop a userExamps sched [0..<nat (numUsers a)] (s, counts);
     Some s' }"

section \<open>mexFunction\<close>

text \<open>
  The fields of the MATLAB struct \<^verbatim>\<open>model\<close> that the function reads; MATLAB stores
  each as a double.
\<close>

record model =
  model_KU :: real
  model_KM :: real
  model_numUsers :: real
  model_numItems :: real
  model_sigmaSqd :: real
  model_sigmaSqd0 :: real
  model_c0 :: real
  model_d0 :: real

text \<open>The conversion of a double to \<^verbatim>\<open>int\<close> drops the fraction.\<close>

definition double_to_int :: "real \<Rightarrow> int" where
  "double_to_int x = (if 0 \<le> x then \<lfloor>x\<rfloor> else \<lceil>x\<rceil>)"

text \<open>
  \<^verbatim>\<open>(sampParams == NULL) || sampParams[k]\<close>, where \<open>sampParams\<close> is \<open>None\<close> when the
  call has no seventh argument.
\<close>

definition sampFlag :: "bool list option \<Rightarrow> int \<Rightarrow> bool option" where
  "sampFlag sampParams k = (case sampParams of None \<Rightarrow> Some True | Some fl \<Rightarrow> rd fl k)"

definition mexFunction ::
  "platform \<Rightarrow> (nat \<Rightarrow> nat) \<Rightarrow> (nat \<Rightarrow> nat) \<Rightarrow> model \<Rightarrow> bool list option \<Rightarrow> store
     \<Rightarrow> store option" where
  "mexFunction pf sched1 sched2 m sampParams s = do {
     let KU = double_to_int (model_KU m + 1/2);
     let KM = double_to_int (model_KM m + 1/2);
     let numUsers = double_to_int (model_numUsers m + 1/2);
     let numItems = double_to_int (model_numItems m + 1/2);
     let invSigmaSqd = 1 / model_sigmaSqd m;
     let invSigmaSqd0 = 1 / model_sigmaSqd0 m;
     let c0 = model_c0 m;
     let d0 = model_d0 m;
     s1 \<leftarrow> (if KM > 0 then do {
               b \<leftarrow> sampFlag sampParams 0;
               if b then sampleOffsets pf sched1
                      \<lparr>users = Arr_users, items = Arr_items, exampsByUser = Arr_exampsByUser,
                       KU = KU, KM = KM, numUsers = numUsers,
                       invSigmaSqd = invSigmaSqd, invSigmaSqd0 = invSigmaSqd0, c0 = c0,
                       c = Arr_c, d = Arr_d, zU = Arr_zU, zM = Arr_zM, resids = Arr_resids\<rparr> s
               else Some s }
             else Some s);
     (if KU > 0 then do {
        b \<leftarrow> sampFlag sampParams 1;
        if b then sampleOffsets pf sched2
               \<lparr>users = Arr_items, items = Arr_users, exampsByUser = Arr_exampsByItem,
                KU = KM, KM = KU, numUsers = numItems,
                invSigmaSqd = invSigmaSqd, invSigmaSqd0 = invSigmaSqd0, c0 = d0,
                c = Arr_d, d = Arr_c, zU = Arr_zM, zM = Arr_zU, resids = Arr_resids\<rparr> s1
        else Some s1 }
      else Some s1) }"

section \<open>What the spec says about one primary entity\<close>

text \<open>
  These definitions follow the words of the spec (section 4.1, step 2), not the code.
  For the one-based interaction index \<open>x\<close> of an adjacency list, \<open>e = x - 1\<close>:
  the accumulator slot is the secondary-side topic \<open>zM[e]\<close> (zero-based: \<open>zM[e] - 1\<close>),
  and the contribution is \<open>resids[e] - d[(items[e]-1)*KU + (zU[e]-1)]\<close> when
  \<open>KU > 0\<close> and \<open>resids[e]\<close> otherwise.
\<close>

definition spec_slot :: "store \<Rightarrow> params \<Rightarrow> uint32 \<Rightarrow> int" where
  "spec_slot s a x = sint (u32 s (zM a) ! unat (x - 1) - 1)"

definition spec_contribution :: "store \<Rightarrow> params \<Rightarrow> uint32 \<Rightarrow> real" where
  "spec_contribution s a x =
     (let e = unat (x - 1) in
      if KU a > 0
      then dbl s (resids a) ! e -
           dbl s (d a) ! unat ((u32 s (items a) ! e - 1) * word_of_int (KU a) + (u32 s (zU a) ! e - 1))
      else dbl s (resids a) ! e)"

text \<open>\<open>sum[i]\<close> and \<open>count[i]\<close> of the spec, for an adjacency list and a topic.\<close>

definition spec_sum :: "store \<Rightarrow> params \<Rightarrow> uint32 list \<Rightarrow> nat \<Rightarrow> real" where
  "spec_sum s a examps i =
     sum_list (map (spec_contribution s a) (filter (\<lambda>x. spec_slot s a x = int i) examps))"

definition spec_count :: "store \<Rightarrow> params \<Rightarrow> uint32 list \<Rightarrow> nat \<Rightarrow> int" where
  "spec_count s a examps i = int (length (filter (\<lambda>x. spec_slot s a x = int i) examps))"

text \<open>
  Step 3 of the spec: the new offset from the prior mean, the two precisions, the
  statistics of the topic and a standard Gaussian deviate \<open>g\<close>.
\<close>

definition spec_offset :: "real \<Rightarrow> real \<Rightarrow> real \<Rightarrow> int \<Rightarrow> real \<Rightarrow> real \<Rightarrow> real" where
  "spec_offset priorMean isq0 isq cnt_i sum_i g =
     (let variance = 1 / (isq0 + of_int cnt_i * isq);
          mean = variance * (priorMean * isq0 + sum_i * isq)
      in mean + sqrt variance * g)"

text \<open>
  Which deviate an offset gets. \<open>thread_iters sched t k n\<close> is the number of iterations
  \<open>u\<close> with \<open>k \<le> u < n\<close> that thread \<open>t\<close> runs. Each iteration takes \<open>KM\<close> deviates
  from the generator of its thread, one per topic in increasing order, so the deviate of
  entity \<open>p\<close> and topic \<open>i\<close> is the one at position \<open>KM\<close> times the number of earlier
  iterations of the same thread, plus \<open>i\<close>, in the generator the thread had at entry.
\<close>

definition thread_iters :: "(nat \<Rightarrow> nat) \<Rightarrow> nat \<Rightarrow> nat \<Rightarrow> nat \<Rightarrow> nat" where
  "thread_iters sched t k n = length (filter (\<lambda>u. sched u = t) [k..<n])"

definition draw_of :: "(nat \<Rightarrow> nat) \<Rightarrow> params \<Rightarrow> store \<Rightarrow> nat \<Rightarrow> nat \<Rightarrow> real" where
  "draw_of sched a s p i =
     (rngs s ! sched p) !! (nat (KM a) * thread_iters sched (sched p) 0 p + i)"

section \<open>Inputs that respect the contract\<close>

text \<open>
  \<open>stat_ok\<close> says that the reads of one pass of the loop over \<open>j\<close> are inside their
  arrays (\<open>c\<close> apart). \<open>topics_ok\<close> says so of every interaction of an adjacency list,
  and that its topic id \<open>zM[e]\<close> is in \<open>[1, KM]\<close>, the invariant of the spec's data
  model.
\<close>

definition stat_ok :: "params \<Rightarrow> store \<Rightarrow> uint32 \<Rightarrow> bool" where
  "stat_ok a s x =
     (let e = unat (x - 1); ei = uint (x - 1) in
      ei < int (length (u32 s (zM a))) \<and> ei < int (length (dbl s (resids a))) \<and>
      (if KU a > 0
       then ei < int (length (u32 s (items a))) \<and> ei < int (length (u32 s (zU a))) \<and>
            uint ((u32 s (items a) ! e - 1) * word_of_int (KU a) + (u32 s (zU a) ! e - 1))
              < int (length (dbl s (d a)))
       else True))"

definition topics_ok :: "params \<Rightarrow> store \<Rightarrow> uint32 list \<Rightarrow> bool" where
  "topics_ok a s examps =
     list_all (\<lambda>x. stat_ok a s x \<and> 0 \<le> spec_slot s a x \<and> spec_slot s a x < KM a) examps"

text \<open>
  What the accumulation for the entity \<open>u\<close> needs: the adjacency list of \<open>u\<close> exists and
  respects the contract, the row of \<open>u\<close> lies inside \<open>c\<close>, and the thread has a counter
  block of at least \<open>KM\<close> ints.
\<close>

definition stats_wf ::
  "params \<Rightarrow> uint32 list list \<Rightarrow> nat \<Rightarrow> nat \<Rightarrow> store \<Rightarrow> int list list \<Rightarrow> bool" where
  "stats_wf a userExamps thread u s counts \<longleftrightarrow>
     0 \<le> KM a \<and> u < length userExamps \<and> thread < length counts \<and>
     nat (KM a) \<le> length (counts ! thread) \<and>
     Suc u * nat (KM a) \<le> length (dbl s (c a)) \<and>
     topics_ok a s (userExamps ! u)"

text \<open>
  What a whole iteration needs in addition: a generator for the thread, when there is an
  offset to draw.
\<close>

definition iter_wf ::
  "params \<Rightarrow> uint32 list list \<Rightarrow> nat \<Rightarrow> nat \<Rightarrow> store \<Rightarrow> int list list \<Rightarrow> bool" where
  "iter_wf a userExamps thread u s counts \<longleftrightarrow>
     stats_wf a userExamps thread u s counts \<and> (0 < KM a \<longrightarrow> thread < length (rngs s))"

text \<open>
  What a call of \<^verbatim>\<open>sampleOffsets\<close> needs, in terms of its arguments: \<open>c\<close> has room for
  \<open>numUsers\<close> rows of \<open>KM\<close> offsets, there is an adjacency list for each of the
  \<open>numUsers\<close> entities and each respects the contract, and every iteration runs on one of
  the \<^verbatim>\<open>MAX_NUM_THREADS\<close> threads, which has its generator.
\<close>

definition call_wf :: "platform \<Rightarrow> (nat \<Rightarrow> nat) \<Rightarrow> params \<Rightarrow> store \<Rightarrow> bool" where
  "call_wf pf sched a s \<longleftrightarrow>
     0 \<le> KM a \<and> 1 \<le> PTR_INTS pf \<and>
     numUsers a \<le> int (length (jag s (exampsByUser a))) \<and>
     nat (numUsers a) * nat (KM a) \<le> length (dbl s (c a)) \<and>
     list_all (\<lambda>u. sched u < MAX_NUM_THREADS pf \<and> sched u < length (rngs s) \<and>
                    topics_ok a s (jag s (exampsByUser a) ! u))
       [0..<nat (numUsers a)]"

section \<open>Two runs that differ in the old offsets\<close>

text \<open>
  Used to compare two runs of \<^verbatim>\<open>sampleOffsets\<close>. \<open>agree_on a A\<close> relates two stores
  that are equal except for the content of the array \<open>c\<close>, where they have the same
  length and agree at the indices in \<open>A\<close>.
\<close>

definition agree_on :: "params \<Rightarrow> nat set \<Rightarrow> store \<Rightarrow> store \<Rightarrow> bool" where
  "agree_on a A s1 s2 \<longleftrightarrow>
     u32 s1 = u32 s2 \<and> jag s1 = jag s2 \<and> rngs s1 = rngs s2 \<and>
     (\<forall>q. q \<noteq> c a \<longrightarrow> dbl s1 q = dbl s2 q) \<and>
     length (dbl s1 (c a)) = length (dbl s2 (c a)) \<and>
     (\<forall>m\<in>A. m < length (dbl s1 (c a)) \<longrightarrow> dbl s1 (c a) ! m = dbl s2 (c a) ! m)"

text \<open>The indices of the rows of the entities in a list.\<close>

definition rows :: "params \<Rightarrow> nat list \<Rightarrow> nat set" where
  "rows a us = (\<Union>u\<in>set us. {u * nat (KM a)..<Suc u * nat (KM a)})"

section \<open>What the spec says about the driver\<close>

text \<open>
  The arguments of the two calls of \<^verbatim>\<open>sampleOffsets\<close> in \<^verbatim>\<open>mexFunction\<close> (lines 160 to
  162 and 167 to 169): users as the primary side with prior mean \<open>c0\<close>, then items as
  the primary side with prior mean \<open>d0\<close>.
\<close>

definition userParams :: "model \<Rightarrow> params" where
  "userParams m =
     \<lparr>users = Arr_users, items = Arr_items, exampsByUser = Arr_exampsByUser,
      KU = double_to_int (model_KU m + 1/2), KM = double_to_int (model_KM m + 1/2),
      numUsers = double_to_int (model_numUsers m + 1/2),
      invSigmaSqd = 1 / model_sigmaSqd m, invSigmaSqd0 = 1 / model_sigmaSqd0 m, c0 = model_c0 m,
      c = Arr_c, d = Arr_d, zU = Arr_zU, zM = Arr_zM, resids = Arr_resids\<rparr>"

definition itemParams :: "model \<Rightarrow> params" where
  "itemParams m =
     \<lparr>users = Arr_items, items = Arr_users, exampsByUser = Arr_exampsByItem,
      KU = double_to_int (model_KM m + 1/2), KM = double_to_int (model_KU m + 1/2),
      numUsers = double_to_int (model_numItems m + 1/2),
      invSigmaSqd = 1 / model_sigmaSqd m, invSigmaSqd0 = 1 / model_sigmaSqd0 m, c0 = model_d0 m,
      c = Arr_d, d = Arr_c, zU = Arr_zM, zM = Arr_zU, resids = Arr_resids\<rparr>"

text \<open>
  The flags \<open>sampleUserParams\<close> (\<open>k = 0\<close>) and \<open>sampleItemParams\<close> (\<open>k = 1\<close>) of the
  spec's driver: the entry of the optional array, and "sample" when the array is not
  supplied.
\<close>

definition spec_flag :: "bool list option \<Rightarrow> nat \<Rightarrow> bool" where
  "spec_flag sampParams k = (case sampParams of None \<Rightarrow> True | Some fl \<Rightarrow> fl ! k)"

text \<open>
  Section 4.2 of the spec: step 1 runs the sampler for the users if \<open>KM > 0\<close> and
  \<open>sampleUserParams\<close>; step 2 then runs it for the items, on the state step 1 left, if
  \<open>KU > 0\<close> and \<open>sampleItemParams\<close>.
\<close>

definition spec_user_enabled :: "model \<Rightarrow> bool list option \<Rightarrow> bool" where
  "spec_user_enabled m sampParams \<longleftrightarrow> KM (userParams m) > 0 \<and> spec_flag sampParams 0"

definition spec_item_enabled :: "model \<Rightarrow> bool list option \<Rightarrow> bool" where
  "spec_item_enabled m sampParams \<longleftrightarrow> KU (userParams m) > 0 \<and> spec_flag sampParams 1"

definition spec_runOffsetUpdate ::
  "platform \<Rightarrow> (nat \<Rightarrow> nat) \<Rightarrow> (nat \<Rightarrow> nat) \<Rightarrow> model \<Rightarrow> bool list option \<Rightarrow> store
     \<Rightarrow> store option" where
  "spec_runOffsetUpdate pf sched1 sched2 m sampParams s = do {
     s1 \<leftarrow> (if spec_user_enabled m sampParams
            then sampleOffsets pf sched1 (userParams m) s else Some s);
     (if spec_item_enabled m sampParams
      then sampleOffsets pf sched2 (itemParams m) s1 else Some s1) }"

section \<open>A small data set\<close>

text \<open>
  Two users, two items, two topics on each side and three interactions:
  (user 1, item 1), (user 1, item 2) and (user 2, item 2). Thread 0 runs the even
  iterations and thread 1 the odd ones.
\<close>

definition fx_store :: store where
  "fx_store =
     \<lparr>dbl = (\<lambda>p. case p of Arr_c \<Rightarrow> [9, 9, 9, 9] | Arr_d \<Rightarrow> [1, 0, 0, 2] | Arr_resids \<Rightarrow> [1, 2, 3]),
      u32 = (\<lambda>p. case p of Arr_users \<Rightarrow> [1, 1, 2] | Arr_items \<Rightarrow> [1, 2, 2]
                          | Arr_zU \<Rightarrow> [1, 2, 1] | Arr_zM \<Rightarrow> [2, 1, 2]),
      jag = (\<lambda>p. case p of Arr_exampsByUser \<Rightarrow> [[1, 2], [3]] | Arr_exampsByItem \<Rightarrow> [[1], [2, 3]]),
      rngs = [[1, 2] @- sconst 0, [3, 4] @- sconst 0]\<rparr>"

text \<open>The same data with generators that only deliver the deviate 0.\<close>

definition fx_store0 :: store where
  "fx_store0 = fx_store\<lparr>rngs := [sconst 0, sconst 0]\<rparr>"

definition fx_model :: model where
  "fx_model =
     \<lparr>model_KU = 2, model_KM = 2, model_numUsers = 2, model_numItems = 2,
      model_sigmaSqd = 1/3, model_sigmaSqd0 = 1, model_c0 = 5, model_d0 = -1\<rparr>"

definition fx_sched :: "nat \<Rightarrow> nat" where
  "fx_sched u = u mod 2"

text \<open>An LP64 platform with two threads; \<^verbatim>\<open>mxMalloc\<close> leaves 7 in every cell.\<close>

definition fx_pf :: platform where
  "fx_pf = \<lparr>MAX_NUM_THREADS = 2, PTR_INTS = 2, fresh = (\<lambda>t k. 7)\<rparr>"

text \<open>
  The states the runs below reach from \<open>fx_store\<close>: after the user phase alone, after
  the user phase and then the item phase, and after the item phase alone.
\<close>

definition fx_after_user :: store where
  "fx_after_user =
     fx_store\<lparr>dbl := (dbl fx_store)(Arr_c := [7/4, 9/4, 8, 11/2]), rngs := [sconst 0, sconst 0]\<rparr>"

definition fx_after_both :: store where
  "fx_after_both =
     fx_after_user\<lparr>dbl := (dbl fx_after_user)(Arr_d := [- (19/16), - 1, - (17/8), - (1/16)])\<rparr>"

definition fx_after_item :: store where
  "fx_after_item =
     fx_store\<lparr>dbl := (dbl fx_store)(Arr_d := [- (23/4), 1, - (13/4), - (7/2)]),
              rngs := [sconst 0, sconst 0]\<rparr>"

definition fx_after_stats :: store where
  "fx_after_stats = fx_store\<lparr>dbl := (dbl fx_store)(Arr_c := [9, 9, 0, 3])\<rparr>"

definition fx_after_iter :: store where
  "fx_after_iter =
     fx_store\<lparr>dbl := (dbl fx_store)(Arr_c := [9, 9, 8, 11/2]), rngs := [[1, 2] @- sconst 0, sconst 0]\<rparr>"

text \<open>
  The \<open>d\<close> offsets of the two orders of the phases on \<open>fx_store0\<close>: one call of the
  driver with both phases enabled, against a call with only the item phase followed by a
  call with only the user phase.
\<close>

definition fx0_user_then_item :: "real list option" where
  "fx0_user_then_item =
     map_option (\<lambda>s. dbl s Arr_d) (mexFunction fx_pf fx_sched fx_sched fx_model None fx_store0)"

definition fx0_item_then_user :: "real list option" where
  "fx0_item_then_user =
     map_option (\<lambda>s. dbl s Arr_d)
       (mexFunction fx_pf fx_sched fx_sched fx_model (Some [False, True]) fx_store0 \<bind>
        mexFunction fx_pf fx_sched fx_sched fx_model (Some [True, False]))"

section \<open>A second data set\<close>

text \<open>
  Three users and three item-side topics, no user-side topics (\<open>KU = 0\<close>, so that \<open>d\<close>
  is empty and is not read), four interactions: user 1 has three of them, user 2 has
  none and user 3 has one.
\<close>

definition gx_store :: store where
  "gx_store =
     \<lparr>dbl = (\<lambda>p. case p of Arr_c \<Rightarrow> [9, 9, 9, 9, 9, 9, 9, 9, 9] | Arr_d \<Rightarrow> []
                          | Arr_resids \<Rightarrow> [1, 2, 4, 8]),
      u32 = (\<lambda>p. case p of Arr_users \<Rightarrow> [1, 1, 1, 3] | Arr_items \<Rightarrow> [1, 2, 1, 2]
                          | Arr_zU \<Rightarrow> [1, 1, 1, 1] | Arr_zM \<Rightarrow> [1, 3, 1, 2]),
      jag = (\<lambda>p. case p of Arr_exampsByUser \<Rightarrow> [[1, 2, 3], [], [4]]
                          | Arr_exampsByItem \<Rightarrow> [[1, 3], [2, 4]]),
      rngs = [[1, 2, 3, 4, 5, 6] @- sconst 0, [- 1, - 2, - 3] @- sconst 0]\<rparr>"

definition gx_params :: params where
  "gx_params =
     \<lparr>users = Arr_users, items = Arr_items, exampsByUser = Arr_exampsByUser,
      KU = 0, KM = 3, numUsers = 3, invSigmaSqd = 24, invSigmaSqd0 = 1, c0 = 5,
      c = Arr_c, d = Arr_d, zU = Arr_zU, zM = Arr_zM, resids = Arr_resids\<rparr>"

text \<open>The counter blocks as \<^verbatim>\<open>mxMalloc\<close> leaves them on \<open>fx_pf\<close>: six ints for each thread.\<close>

definition gx_counts :: "int list list" where
  "gx_counts = [[7, 7, 7, 7, 7, 7], [7, 7, 7, 7, 7, 7]]"

text \<open>
  The states the runs reach from \<open>gx_store\<close>: after the accumulation for user 1, after
  the whole iteration for user 1, and after the whole call.
\<close>

definition gx_after_stats :: store where
  "gx_after_stats = gx_store\<lparr>dbl := (dbl gx_store)(Arr_c := [5, 0, 2, 9, 9, 9, 9, 9, 9])\<rparr>"

definition gx_after_iter :: store where
  "gx_after_iter =
     gx_store\<lparr>dbl := (dbl gx_store)(Arr_c := [132/49, 7, 68/25, 9, 9, 9, 9, 9, 9]),
              rngs := [[4, 5, 6] @- sconst 0, [- 1, - 2, - 3] @- sconst 0]\<rparr>"

definition gx_after :: store where
  "gx_after =
     gx_store\<lparr>dbl := (dbl gx_store)(Arr_c := [132/49, 7, 68/25, 4, 3, 2, 9, 222/25, 11]),
              rngs := [sconst 0, sconst 0]\<rparr>"


section \<open>Reads and writes, and the accumulation loop\<close>

lemma rd_Some: "rd xs i = Some v \<longleftrightarrow> 0 \<le> i \<and> i < int (length xs) \<and> v = xs ! nat i"
  by (auto simp: rd_def)

lemma wr_Some: "wr xs i v = Some ys \<longleftrightarrow> 0 \<le> i \<and> i < int (length xs) \<and> ys = xs[nat i := v]"
  by (auto simp: wr_def)

lemma wr_dbl_Some:
  "wr_dbl s p i v = Some s' \<longleftrightarrow>
     0 \<le> i \<and> i < int (length (dbl s p)) \<and> s' = s\<lparr>dbl := (dbl s)(p := (dbl s p)[nat i := v])\<rparr>"
  by (auto simp: wr_dbl_def wr_Some bind_eq_Some_conv)

lemma sufficientStats_Cons:
  assumes "sufficientStats a cPtr (x # xs) (s, cnt) = Some res"
  defines "i \<equiv> spec_slot s a x"
  defines "cs \<equiv> dbl s (c a)"
  shows "0 \<le> cPtr + i \<and> cPtr + i < int (length cs) \<and> 0 \<le> i \<and> i < int (length cnt) \<and>
         sufficientStats a cPtr xs
           (s\<lparr>dbl := (dbl s)(c a := cs[nat (cPtr + i) := cs ! nat (cPtr + i) + spec_contribution s a x])\<rparr>,
            cnt[nat i := cnt ! nat i + 1]) = Some res"
  using assms(1) unfolding i_def cs_def
  by (auto simp: bind_eq_Some_conv rd_Some wr_Some wr_dbl_Some spec_slot_def spec_contribution_def Let_def
      split: if_splits)

lemma sufficientStats_Cons_eq:
  "sufficientStats a cPtr (x # xs) (s, cnt) =
     (let i = spec_slot s a x; j = cPtr + i in
      if stat_ok a s x \<and> 0 \<le> j \<and> j < int (length (dbl s (c a))) \<and> 0 \<le> i \<and> i < int (length cnt)
      then sufficientStats a cPtr xs
        (s\<lparr>dbl := (dbl s)(c a := (dbl s (c a))[nat j := dbl s (c a) ! nat j + spec_contribution s a x])\<rparr>,
         cnt[nat i := cnt ! nat i + 1])
      else None)"
  by (auto simp: rd_def wr_def wr_dbl_def Let_def spec_slot_def spec_contribution_def stat_ok_def)

lemma spec_cong:
  assumes "u32 s1 = u32 s" "dbl s1 (d a) = dbl s (d a)" "dbl s1 (resids a) = dbl s (resids a)"
  shows "spec_slot s1 a = spec_slot s a" "spec_contribution s1 a = spec_contribution s a"
    "spec_sum s1 a = spec_sum s a" "spec_count s1 a = spec_count s a"
proof -
  show 1: "spec_slot s1 a = spec_slot s a"
    by (rule ext) (simp add: spec_slot_def assms)
  show 2: "spec_contribution s1 a = spec_contribution s a"
    by (rule ext) (simp add: spec_contribution_def Let_def assms)
  show "spec_sum s1 a = spec_sum s a"
    by (intro ext) (simp add: spec_sum_def 1 2)
  show "spec_count s1 a = spec_count s a"
    by (intro ext) (simp add: spec_count_def 1)
qed

lemma spec_slot_cong:
  assumes "u32 s1 = u32 s"
  shows "spec_slot s1 a = spec_slot s a" "spec_count s1 a = spec_count s a"
proof -
  show 1: "spec_slot s1 a = spec_slot s a"
    by (rule ext) (simp add: spec_slot_def assms)
  show "spec_count s1 a = spec_count s a"
    by (intro ext) (simp add: spec_count_def 1)
qed

lemma stat_ok_cong:
  assumes "u32 s1 = u32 s" "\<And>q. length (dbl s1 q) = length (dbl s q)"
  shows "stat_ok a s1 = stat_ok a s"
  by (rule ext) (simp add: stat_ok_def assms Let_def)

lemma topics_ok_cong:
  assumes "u32 s1 = u32 s" "\<And>q. length (dbl s1 q) = length (dbl s q)"
  shows "topics_ok a s1 = topics_ok a s"
  by (rule ext) (simp add: topics_ok_def stat_ok_cong[OF assms] spec_slot_cong(1)[OF assms(1)])

lemma sufficientStats_frame:
  "sufficientStats a cPtr xs (s, cnt) = Some (s', cnt') \<Longrightarrow>
     u32 s' = u32 s \<and> jag s' = jag s \<and> rngs s' = rngs s \<and>
     (\<forall>q. q \<noteq> c a \<longrightarrow> dbl s' q = dbl s q) \<and>
     length (dbl s' (c a)) = length (dbl s (c a)) \<and> length cnt' = length cnt \<and>
     (\<forall>k. int k < cPtr \<or> cPtr + int (length cnt) \<le> int k \<longrightarrow> dbl s' (c a) ! k = dbl s (c a) ! k)"
proof (induction xs arbitrary: s cnt)
  case Nil
  then show ?case by simp
next
  case (Cons x xs)
  define i where "i = spec_slot s a x"
  define cs where "cs = dbl s (c a)"
  define s1 where "s1 = s\<lparr>dbl := (dbl s)(c a := cs[nat (cPtr + i) := cs ! nat (cPtr + i) + spec_contribution s a x])\<rparr>"
  define cnt1 where "cnt1 = cnt[nat i := cnt ! nat i + 1]"
  from sufficientStats_Cons[OF Cons.prems]
  have b: "0 \<le> cPtr + i" "cPtr + i < int (length cs)" "0 \<le> i" "i < int (length cnt)"
    and run: "sufficientStats a cPtr xs (s1, cnt1) = Some (s', cnt')"
    by (simp_all add: i_def cs_def s1_def cnt1_def)
  note ih = Cons.IH[OF run]
  have out: "dbl s1 (c a) ! k = dbl s (c a) ! k"
    if "int k < cPtr \<or> cPtr + int (length cnt) \<le> int k" for k
  proof -
    from that b have "k \<noteq> nat (cPtr + i)" by linarith
    then show ?thesis by (simp add: s1_def cs_def)
  qed
  show ?case
    using ih out by (simp add: s1_def cnt1_def cs_def)
qed

lemma sufficientStats_same:
  assumes "sufficientStats a cPtr xs (s, cnt) = Some (s', cnt')"
  shows "u32 s' = u32 s" "jag s' = jag s" "rngs s' = rngs s" "q \<noteq> c a \<Longrightarrow> dbl s' q = dbl s q"
    "length (dbl s' (c a)) = length (dbl s (c a))" "length cnt' = length cnt"
  using sufficientStats_frame[OF assms] by simp_all

lemma sufficientStats_outside:
  assumes "sufficientStats a cPtr xs (s, cnt) = Some (s', cnt')"
    and "int k < cPtr \<or> cPtr + int (length cnt) \<le> int k"
  shows "dbl s' (c a) ! k = dbl s (c a) ! k"
proof -
  from sufficientStats_frame[OF assms(1)]
  have "\<forall>k. int k < cPtr \<or> cPtr + int (length cnt) \<le> int k \<longrightarrow> dbl s' (c a) ! k = dbl s (c a) ! k"
    by (elim conjE)
  with assms(2) show ?thesis by (elim allE impE)
qed

lemma sufficientStats_values:
  assumes "sufficientStats a cPtr xs (s, cnt) = Some (s', cnt')"
    and "c a \<noteq> d a" "c a \<noteq> resids a" "0 \<le> cPtr" "i < length cnt"
  shows "dbl s' (c a) ! (nat cPtr + i) = dbl s (c a) ! (nat cPtr + i) + spec_sum s a xs i \<and>
    cnt' ! i = cnt ! i + spec_count s a xs i"
  using assms
proof (induction xs arbitrary: s cnt)
  case Nil
  then show ?case by (simp add: spec_sum_def spec_count_def)
next
  case (Cons x xs)
  define j where "j = spec_slot s a x"
  define cs where "cs = dbl s (c a)"
  define s1 where "s1 = s\<lparr>dbl := (dbl s)(c a := cs[nat (cPtr + j) := cs ! nat (cPtr + j) + spec_contribution s a x])\<rparr>"
  define cnt1 where "cnt1 = cnt[nat j := cnt ! nat j + 1]"
  note ne = Cons.prems(2,3) and pos = Cons.prems(4) and il = Cons.prems(5)
  from sufficientStats_Cons[OF Cons.prems(1)]
  have b: "0 \<le> cPtr + j" "cPtr + j < int (length cs)" "0 \<le> j" "j < int (length cnt)"
    and run: "sufficientStats a cPtr xs (s1, cnt1) = Some (s', cnt')"
    by (simp_all add: j_def cs_def s1_def cnt1_def)
  have same: "spec_sum s1 a = spec_sum s a" "spec_count s1 a = spec_count s a"
    using ne by (auto intro!: spec_cong simp: s1_def)
  have il1: "i < length cnt1" using il by (simp add: cnt1_def)
  from Cons.IH[OF run ne pos il1] same
  have e1: "dbl s' (c a) ! (nat cPtr + i) = dbl s1 (c a) ! (nat cPtr + i) + spec_sum s a xs i"
    and e2: "cnt' ! i = cnt1 ! i + spec_count s a xs i"
    by simp_all
  have idx: "nat (cPtr + j) = nat cPtr + i \<longleftrightarrow> j = int i" using pos b by linarith
  have idx2: "nat j = i \<longleftrightarrow> j = int i" using b by linarith
  have v1: "dbl s1 (c a) ! (nat cPtr + i) =
      dbl s (c a) ! (nat cPtr + i) + (if j = int i then spec_contribution s a x else 0)"
    using b pos idx by (auto simp: s1_def cs_def nth_list_update)
  have v2: "cnt1 ! i = cnt ! i + (if j = int i then 1 else 0)"
    using b il idx2 by (auto simp: cnt1_def nth_list_update)
  have "dbl s' (c a) ! (nat cPtr + i) = dbl s (c a) ! (nat cPtr + i) + spec_sum s a (x # xs) i"
    using e1 v1 by (simp add: spec_sum_def j_def)
  moreover have "cnt' ! i = cnt ! i + spec_count s a (x # xs) i"
    using e2 v2 by (simp add: spec_count_def j_def)
  ultimately show ?case by simp
qed

lemma sufficientStats_in_row:
  assumes "sufficientStats a cPtr xs (s, cnt) = Some (s', cnt')"
    and "\<forall>x\<in>set xs. spec_slot s a x < n"
    and "int k < cPtr \<or> cPtr + n \<le> int k"
  shows "dbl s' (c a) ! k = dbl s (c a) ! k"
  using assms(1,2)
proof (induction xs arbitrary: s cnt)
  case Nil
  then show ?case by simp
next
  case (Cons x xs)
  define j where "j = spec_slot s a x"
  define cs where "cs = dbl s (c a)"
  define s1 where "s1 = s\<lparr>dbl := (dbl s)(c a := cs[nat (cPtr + j) := cs ! nat (cPtr + j) + spec_contribution s a x])\<rparr>"
  define cnt1 where "cnt1 = cnt[nat j := cnt ! nat j + 1]"
  from sufficientStats_Cons[OF Cons.prems(1)]
  have b: "0 \<le> cPtr + j" "0 \<le> j"
    and run: "sufficientStats a cPtr xs (s1, cnt1) = Some (s', cnt')"
    by (simp_all add: j_def cs_def s1_def cnt1_def)
  have jn: "j < n" using Cons.prems(2) by (simp add: j_def)
  have "spec_slot s1 a = spec_slot s a"
    by (rule spec_slot_cong) (simp add: s1_def)
  with Cons.prems(2) have "\<forall>x\<in>set xs. spec_slot s1 a x < n" by simp
  from Cons.IH[OF run this] have "dbl s' (c a) ! k = dbl s1 (c a) ! k" .
  moreover from assms(3) b jn have "k \<noteq> nat (cPtr + j)" by linarith
  ultimately show ?case by (simp add: s1_def cs_def)
qed

lemma sufficientStats_counts:
  assumes "sufficientStats a cPtr xs (s, cnt) = Some (s', cnt')" and "i < length cnt"
  shows "cnt' ! i = cnt ! i + spec_count s a xs i"
  using assms
proof (induction xs arbitrary: s cnt)
  case Nil
  then show ?case by (simp add: spec_count_def)
next
  case (Cons x xs)
  define j where "j = spec_slot s a x"
  define cs where "cs = dbl s (c a)"
  define s1 where "s1 = s\<lparr>dbl := (dbl s)(c a := cs[nat (cPtr + j) := cs ! nat (cPtr + j) + spec_contribution s a x])\<rparr>"
  define cnt1 where "cnt1 = cnt[nat j := cnt ! nat j + 1]"
  from sufficientStats_Cons[OF Cons.prems(1)]
  have b: "0 \<le> j" "j < int (length cnt)"
    and run: "sufficientStats a cPtr xs (s1, cnt1) = Some (s', cnt')"
    by (simp_all add: j_def cs_def s1_def cnt1_def)
  have same: "spec_count s1 a = spec_count s a"
    by (rule spec_slot_cong) (simp add: s1_def)
  have il1: "i < length cnt1" using Cons.prems(2) by (simp add: cnt1_def)
  from Cons.IH[OF run il1] same
  have e2: "cnt' ! i = cnt1 ! i + spec_count s a xs i" by simp
  have idx2: "nat j = i \<longleftrightarrow> j = int i" using b by linarith
  have v2: "cnt1 ! i = cnt ! i + (if j = int i then 1 else 0)"
    using b Cons.prems(2) idx2 by (auto simp: cnt1_def nth_list_update)
  show ?case using e2 v2 by (simp add: spec_count_def j_def)
qed

lemma spec_count_total:
  assumes "\<forall>x\<in>set xs. 0 \<le> spec_slot s a x \<and> spec_slot s a x < int n"
  shows "(\<Sum>i = 0..<n. spec_count s a xs i) = int (length xs)"
  using assms
proof (induction xs)
  case Nil
  then show ?case by (simp add: spec_count_def)
next
  case (Cons x xs)
  then obtain j where j: "spec_slot s a x = int j" "j < n"
    by (metis list.set_intros(1) nat_less_iff nonneg_int_cases of_nat_less_iff)
  have "spec_count s a (x # xs) i = (if i = j then 1 else 0) + spec_count s a xs i" for i
    by (simp add: spec_count_def j)
  then have "(\<Sum>i = 0..<n. spec_count s a (x # xs) i) =
      (\<Sum>i = 0..<n. (if i = j then 1 else 0)) + (\<Sum>i = 0..<n. spec_count s a xs i)"
    by (simp add: sum.distrib)
  also have "(\<Sum>i = 0..<n. (if i = j then 1 else 0 :: int)) = 1"
    using j(2) by simp
  finally show ?case using Cons by simp
qed

lemma sufficientStats_ok:
  assumes "\<forall>x\<in>set xs. stat_ok a s x \<and> 0 \<le> spec_slot s a x \<and> spec_slot s a x < int (length cnt) \<and>
      0 \<le> cPtr + spec_slot s a x \<and> cPtr + spec_slot s a x < int (length (dbl s (c a)))"
  shows "\<exists>res. sufficientStats a cPtr xs (s, cnt) = Some res"
  using assms
proof (induction xs arbitrary: s cnt)
  case Nil
  then show ?case by simp
next
  case (Cons x xs)
  define j where "j = spec_slot s a x"
  define cs where "cs = dbl s (c a)"
  define s1 where "s1 = s\<lparr>dbl := (dbl s)(c a := cs[nat (cPtr + j) := cs ! nat (cPtr + j) + spec_contribution s a x])\<rparr>"
  define cnt1 where "cnt1 = cnt[nat j := cnt ! nat j + 1]"
  from Cons.prems have ok: "stat_ok a s x" "0 \<le> j" "j < int (length cnt)" "0 \<le> cPtr + j"
    "cPtr + j < int (length (dbl s (c a)))"
    by (simp_all add: j_def)
  then have step: "sufficientStats a cPtr (x # xs) (s, cnt) = sufficientStats a cPtr xs (s1, cnt1)"
    unfolding sufficientStats_Cons_eq by (simp add: j_def s1_def cs_def cnt1_def Let_def)
  have u: "u32 s1 = u32 s" and l: "length (dbl s1 q) = length (dbl s q)" for q
    by (simp_all add: s1_def cs_def)
  have sl: "spec_slot s1 a = spec_slot s a" by (rule spec_slot_cong(1)[OF u])
  have so: "stat_ok a s1 = stat_ok a s" by (rule stat_ok_cong[OF u l])
  have "\<forall>x\<in>set xs. stat_ok a s1 x \<and> 0 \<le> spec_slot s1 a x \<and> spec_slot s1 a x < int (length cnt1) \<and>
      0 \<le> cPtr + spec_slot s1 a x \<and> cPtr + spec_slot s1 a x < int (length (dbl s1 (c a)))"
    using Cons.prems by (simp add: sl so l cnt1_def)
  from Cons.IH[OF this] show ?case unfolding step .
qed


section \<open>The sampling loop and the fill helpers\<close>

lemma code_offset_eq:
  "(ratio a + old * invSigmaSqd a) * (1 / (invSigmaSqd0 a + of_int n * invSigmaSqd a)) +
     sqrt (1 / (invSigmaSqd0 a + of_int n * invSigmaSqd a)) * g =
   spec_offset (c0 a) (invSigmaSqd0 a) (invSigmaSqd a) n old g"
  by (simp add: spec_offset_def ratio_def Let_def mult.commute)

lemma sampleNew_Cons:
  assumes "sampleNew a t cPtr cnt (i # is) s = Some s'"
  defines "cs \<equiv> dbl s (c a)"
  shows "i < length cnt \<and> 0 \<le> cPtr + int i \<and> cPtr + int i < int (length cs) \<and> t < length (rngs s) \<and>
     sampleNew a t cPtr cnt is
       (s\<lparr>rngs := (rngs s)[t := stl (rngs s ! t)],
          dbl := (dbl s)(c a := cs[nat (cPtr + int i) :=
             spec_offset (c0 a) (invSigmaSqd0 a) (invSigmaSqd a) (cnt ! i) (cs ! nat (cPtr + int i))
               (shd (rngs s ! t))])\<rparr>) = Some s'"
  using assms(1) unfolding cs_def
  by (auto simp: bind_eq_Some_conv rd_Some wr_dbl_Some gsl_ran_gaussian_def Let_def
      code_offset_eq[symmetric] split: prod.splits)

lemma sampleNew_Cons_eq:
  "sampleNew a t cPtr cnt (i # is) s =
     (let j = cPtr + int i in
      if i < length cnt \<and> 0 \<le> j \<and> j < int (length (dbl s (c a))) \<and> t < length (rngs s)
      then sampleNew a t cPtr cnt is
        (s\<lparr>rngs := (rngs s)[t := stl (rngs s ! t)],
           dbl := (dbl s)(c a := (dbl s (c a))[nat j :=
             spec_offset (c0 a) (invSigmaSqd0 a) (invSigmaSqd a) (cnt ! i) (dbl s (c a) ! nat j)
               (shd (rngs s ! t))])\<rparr>)
      else None)"
  by (auto simp: rd_def wr_def wr_dbl_def Let_def gsl_ran_gaussian_def code_offset_eq[symmetric])

lemma sampleNew_char:
  assumes "sampleNew a t cPtr cnt [k..<n] s = Some s'" and "0 \<le> cPtr"
  shows "u32 s' = u32 s \<and> jag s' = jag s \<and> (\<forall>q. q \<noteq> c a \<longrightarrow> dbl s' q = dbl s q) \<and>
     length (dbl s' (c a)) = length (dbl s (c a)) \<and>
     rngs s' = (rngs s)[t := sdrop (n - k) (rngs s ! t)] \<and>
     (\<forall>j. k \<le> j \<and> j < n \<longrightarrow> dbl s' (c a) ! (nat cPtr + j) =
        spec_offset (c0 a) (invSigmaSqd0 a) (invSigmaSqd a) (cnt ! j) (dbl s (c a) ! (nat cPtr + j))
          ((rngs s ! t) !! (j - k))) \<and>
     (\<forall>m. m < nat cPtr + k \<or> nat cPtr + n \<le> m \<longrightarrow> dbl s' (c a) ! m = dbl s (c a) ! m)"
  using assms
proof (induction "n - k" arbitrary: k s)
  case 0
  then have "[k..<n] = []" by simp
  with "0.prems" have "s' = s" by simp
  with 0 show ?case by simp
next
  case (Suc m)
  then have kn: "k < n" and m: "m = n - Suc k" by linarith+
  then have up: "[k..<n] = k # [Suc k..<n]" by (simp add: upt_conv_Cons)
  define cs where "cs = dbl s (c a)"
  define r where "r = rngs s ! t"
  define v where "v = spec_offset (c0 a) (invSigmaSqd0 a) (invSigmaSqd a) (cnt ! k) (cs ! nat (cPtr + int k)) (shd r)"
  define s1 where "s1 = s\<lparr>rngs := (rngs s)[t := stl r], dbl := (dbl s)(c a := cs[nat (cPtr + int k) := v])\<rparr>"
  from sampleNew_Cons[OF Suc.prems(1)[unfolded up]]
  have b: "k < length cnt" "0 \<le> cPtr + int k" "cPtr + int k < int (length cs)" "t < length (rngs s)"
    and run: "sampleNew a t cPtr cnt [Suc k..<n] s1 = Some s'"
    by (simp_all add: cs_def s1_def v_def r_def)
  note ih = Suc.hyps(1)[OF m run Suc.prems(2)]
  have ih_out: "dbl s' (c a) ! m = dbl s1 (c a) ! m" if "m < nat cPtr + Suc k \<or> nat cPtr + n \<le> m" for m
    using ih that by blast
  have pk: "nat (cPtr + int k) = nat cPtr + k" using Suc.prems(2) by linarith
  have r1: "rngs s1 ! t = stl r" using b by (simp add: s1_def)
  have rg: "rngs s' = (rngs s)[t := sdrop (n - k) r]"
  proof -
    have "sdrop (n - Suc k) (stl r) = sdrop (n - k) r"
      using kn by (metis Suc_diff_Suc sdrop.simps(2))
    then show ?thesis using ih r1 by (simp add: s1_def)
  qed
  have inside: "dbl s' (c a) ! (nat cPtr + j) =
        spec_offset (c0 a) (invSigmaSqd0 a) (invSigmaSqd a) (cnt ! j) (cs ! (nat cPtr + j)) (r !! (j - k))"
    if "k \<le> j" "j < n" for j
  proof (cases "j = k")
    case True
    have "dbl s' (c a) ! (nat cPtr + k) = dbl s1 (c a) ! (nat cPtr + k)" using ih_out by simp
    also have "\<dots> = v" using b pk by (simp add: s1_def)
    finally show ?thesis using True pk by (simp add: v_def)
  next
    case False
    with that have j: "Suc k \<le> j" by simp
    have "dbl s' (c a) ! (nat cPtr + j) =
        spec_offset (c0 a) (invSigmaSqd0 a) (invSigmaSqd a) (cnt ! j) (dbl s1 (c a) ! (nat cPtr + j))
          ((rngs s1 ! t) !! (j - Suc k))"
      using ih j that by blast
    moreover have "dbl s1 (c a) ! (nat cPtr + j) = cs ! (nat cPtr + j)"
      using False pk by (simp add: s1_def)
    moreover have "stl r !! (j - Suc k) = r !! (j - k)"
      using j by (metis Suc_diff_le diff_Suc_Suc snth.simps(2))
    ultimately show ?thesis using r1 by simp
  qed
  have outside: "dbl s' (c a) ! m = dbl s (c a) ! m" if "m < nat cPtr + k \<or> nat cPtr + n \<le> m" for m
  proof -
    from that kn have "m \<noteq> nat cPtr + k" by linarith
    moreover from that have "m < nat cPtr + Suc k \<or> nat cPtr + n \<le> m" by linarith
    ultimately have "dbl s' (c a) ! m = dbl s1 (c a) ! m" "dbl s1 (c a) ! m = dbl s (c a) ! m"
      using ih_out pk by (simp_all add: s1_def cs_def)
    then show ?thesis by simp
  qed
  show ?case
    using ih rg inside outside by (simp add: s1_def cs_def r_def)
qed

lemma sampleNew_frame:
  assumes "sampleNew a t cPtr cnt [k..<n] s = Some s'" and "0 \<le> cPtr"
  shows "u32 s' = u32 s" "jag s' = jag s" "q \<noteq> c a \<Longrightarrow> dbl s' q = dbl s q"
    "length (dbl s' (c a)) = length (dbl s (c a))"
    "rngs s' = (rngs s)[t := sdrop (n - k) (rngs s ! t)]"
  using sampleNew_char[OF assms] by simp_all

lemma sampleNew_inside:
  assumes "sampleNew a t cPtr cnt [k..<n] s = Some s'" and "0 \<le> cPtr" and "k \<le> j" "j < n"
  shows "dbl s' (c a) ! (nat cPtr + j) =
        spec_offset (c0 a) (invSigmaSqd0 a) (invSigmaSqd a) (cnt ! j) (dbl s (c a) ! (nat cPtr + j))
          ((rngs s ! t) !! (j - k))"
  using sampleNew_char[OF assms(1,2)] assms(3,4) by simp

lemma sampleNew_outside:
  assumes "sampleNew a t cPtr cnt [k..<n] s = Some s'" and "0 \<le> cPtr"
    and "m < nat cPtr + k \<or> nat cPtr + n \<le> m"
  shows "dbl s' (c a) ! m = dbl s (c a) ! m"
proof -
  from sampleNew_char[OF assms(1,2)]
  have "\<forall>m. m < nat cPtr + k \<or> nat cPtr + n \<le> m \<longrightarrow> dbl s' (c a) ! m = dbl s (c a) ! m"
    by (elim conjE)
  with assms(3) show ?thesis by (elim allE impE)
qed

lemma fillArray_Some:
  assumes "fillArray xs p n v = Some ys" and "0 \<le> p"
  shows "length ys = length xs"
    and "k < length xs \<Longrightarrow> ys ! k = (if p \<le> int k \<and> int k < p + n then v else xs ! k)"
proof -
  show "length ys = length xs"
    using assms by (auto simp: fillArray_def split: if_splits)
  assume k: "k < length xs"
  show "ys ! k = (if p \<le> int k \<and> int k < p + n then v else xs ! k)"
  proof (cases "n \<le> 0")
    case True
    with assms show ?thesis by (auto simp: fillArray_def)
  next
    case False
    with assms have fit: "p + n \<le> int (length xs)"
      and ys: "ys = take (nat p) xs @ replicate (nat n) v @ drop (nat (p + n)) xs"
      by (auto simp: fillArray_def split: if_splits)
    consider "int k < p" | "p \<le> int k" "int k < p + n" | "p + n \<le> int k" by linarith
    then show ?thesis
    proof cases
      case 1
      then show ?thesis using assms(2) k by (simp add: ys nth_append)
    next
      case 2
      then have "\<not> k < nat p" "k - nat p < nat n" using assms(2) by linarith+
      then show ?thesis using 2 fit assms(2) by (simp add: ys nth_append)
    next
      case 3
      then have nk: "\<not> k < nat p" "\<not> k - nat p < nat n" using assms(2) False by linarith+
      have lt: "length (take (nat p) xs) = nat p" using fit assms(2) False by simp
      have "ys ! k = drop (nat (p + n)) xs ! (k - nat p - nat n)"
        using nk by (simp add: ys nth_append lt del: length_take)
      also have "\<dots> = xs ! (nat (p + n) + (k - nat p - nat n))"
        using fit by (intro nth_drop) simp
      also have "nat (p + n) + (k - nat p - nat n) = k" using 3 assms(2) False by linarith
      finally show ?thesis using 3 by simp
    qed
  qed
qed

lemma fillArrayD_Some:
  assumes "fillArrayD s p ofs n v = Some s'"
  obtains ys where "fillArray (dbl s p) ofs n v = Some ys" "s' = s\<lparr>dbl := (dbl s)(p := ys)\<rparr>"
  using assms by (auto simp: fillArrayD_def bind_eq_Some_conv)

lemma sampleNew_ok:
  assumes "\<forall>i\<in>set is. i < length cnt \<and> 0 \<le> cPtr + int i \<and> cPtr + int i < int (length (dbl s (c a)))"
    and "is \<noteq> [] \<longrightarrow> t < length (rngs s)"
  shows "\<exists>s'. sampleNew a t cPtr cnt is s = Some s'"
  using assms
proof (induction "is" arbitrary: s)
  case Nil
  then show ?case by simp
next
  case (Cons i "is")
  define j where "j = cPtr + int i"
  define s1 where "s1 = s\<lparr>rngs := (rngs s)[t := stl (rngs s ! t)],
           dbl := (dbl s)(c a := (dbl s (c a))[nat j :=
             spec_offset (c0 a) (invSigmaSqd0 a) (invSigmaSqd a) (cnt ! i) (dbl s (c a) ! nat j)
               (shd (rngs s ! t))])\<rparr>"
  from Cons.prems have ok: "i < length cnt" "0 \<le> j" "j < int (length (dbl s (c a)))" "t < length (rngs s)"
    by (simp_all add: j_def)
  then have step: "sampleNew a t cPtr cnt (i # is) s = sampleNew a t cPtr cnt is s1"
    unfolding sampleNew_Cons_eq by (simp add: j_def s1_def Let_def)
  have "\<forall>i\<in>set is. i < length cnt \<and> 0 \<le> cPtr + int i \<and> cPtr + int i < int (length (dbl s1 (c a)))"
    using Cons.prems(1) by (simp add: s1_def)
  moreover have "is \<noteq> [] \<longrightarrow> t < length (rngs s1)"
    using ok(4) by (simp add: s1_def)
  ultimately show ?case using Cons.IH[of s1] unfolding step by blast
qed

lemma fillArray_ok:
  assumes "0 < n \<longrightarrow> 0 \<le> p \<and> p + n \<le> int (length xs)"
  shows "\<exists>ys. fillArray xs p n v = Some ys"
  using assms by (auto simp: fillArray_def)


section \<open>The statistics of one primary entity\<close>

lemma userStats_parts:
  assumes "userStats a ue t u (s, counts) = Some res"
  obtains ys buf0 where
    "fillArray (dbl s (c a)) (int u * KM a) (KM a) 0 = Some ys"
    "t < length counts" "fillArray (counts ! t) 0 (KM a) 0 = Some buf0"
    "u < length ue"
    "sufficientStats a (int u * KM a) (ue ! u) (s\<lparr>dbl := (dbl s)(c a := ys)\<rparr>, buf0) = Some res"
  using assms
  by (auto simp: userStats_def Let_def bind_eq_Some_conv rd_Some fillArrayI_def elim!: fillArrayD_Some)

lemma userStats_frame:
  assumes "userStats a ue t u (s, counts) = Some (s2, buf)" and "0 \<le> KM a"
  shows "u32 s2 = u32 s" "jag s2 = jag s" "rngs s2 = rngs s"
    "q \<noteq> c a \<Longrightarrow> dbl s2 q = dbl s q"
    "length (dbl s2 (c a)) = length (dbl s (c a))" "length buf = length (counts ! t)"
    "u < length ue" "t < length counts" "nat (KM a) \<le> length (counts ! t)"
    "m < length (dbl s (c a)) \<Longrightarrow> m < u * nat (KM a) \<Longrightarrow> dbl s2 (c a) ! m = dbl s (c a) ! m"
    "0 < KM a \<Longrightarrow> Suc u * nat (KM a) \<le> length (dbl s (c a))"
proof -
  define cPtr where "cPtr = int u * KM a"
  from userStats_parts[OF assms(1)] obtain ys buf0 where
    fy: "fillArray (dbl s (c a)) cPtr (KM a) 0 = Some ys"
    and t: "t < length counts" and fb: "fillArray (counts ! t) 0 (KM a) 0 = Some buf0"
    and u: "u < length ue"
    and run: "sufficientStats a cPtr (ue ! u) (s\<lparr>dbl := (dbl s)(c a := ys)\<rparr>, buf0) = Some (s2, buf)"
    unfolding cPtr_def by blast
  have pos: "0 \<le> cPtr" using assms(2) by (simp add: cPtr_def)
  have lb: "length buf0 = length (counts ! t)"
    using fillArray_Some(1)[OF fb] by simp
  note fr = sufficientStats_same[OF run]
  have ly: "length ys = length (dbl s (c a))" using fillArray_Some(1)[OF fy pos] .
  show "u32 s2 = u32 s" "jag s2 = jag s" "rngs s2 = rngs s" using fr by simp_all
  show "dbl s2 q = dbl s q" if "q \<noteq> c a" for q using fr(4)[OF that] that by simp
  show "length (dbl s2 (c a)) = length (dbl s (c a))" using fr ly by simp
  show "length buf = length (counts ! t)" using fr lb by simp
  show "u < length ue" "t < length counts" by fact+
  show "nat (KM a) \<le> length (counts ! t)"
    using fb by (auto simp: fillArray_def split: if_splits)
  show "Suc u * nat (KM a) \<le> length (dbl s (c a))" if "0 < KM a"
  proof -
    from fy that have "cPtr + KM a \<le> int (length (dbl s (c a)))"
      by (auto simp: fillArray_def split: if_splits)
    moreover have "int (Suc u * nat (KM a)) = cPtr + KM a"
      using assms(2) by (simp add: cPtr_def algebra_simps)
    ultimately show ?thesis by linarith
  qed
  show "dbl s2 (c a) ! m = dbl s (c a) ! m"
    if "m < length (dbl s (c a))" "m < u * nat (KM a)"
  proof -
    have "int (u * nat (KM a)) = cPtr"
      using assms(2) by (simp add: cPtr_def)
    with that(2) have o: "int m < cPtr" by linarith
    then have "int m < cPtr \<or> cPtr + int (length buf0) \<le> int m" by simp
    from sufficientStats_outside[OF run this]
    have "dbl s2 (c a) ! m = ys ! m" by simp
    also have "\<dots> = dbl s (c a) ! m"
      using fillArray_Some(2)[OF fy pos that(1)] o by auto
    finally show ?thesis .
  qed
qed

lemma userStats_row:
  assumes "userStats a ue t u (s, counts) = Some (s2, buf)" and "0 \<le> KM a"
    and "\<forall>x\<in>set (ue ! u). spec_slot s a x < KM a"
    and "m < length (dbl s (c a))" "Suc u * nat (KM a) \<le> m"
  shows "dbl s2 (c a) ! m = dbl s (c a) ! m"
proof -
  define cPtr where "cPtr = int u * KM a"
  define s1 where "s1 ys = s\<lparr>dbl := (dbl s)(c a := ys)\<rparr>" for ys
  from userStats_parts[OF assms(1)] obtain ys buf0 where
    fy: "fillArray (dbl s (c a)) cPtr (KM a) 0 = Some ys"
    and run: "sufficientStats a cPtr (ue ! u) (s1 ys, buf0) = Some (s2, buf)"
    unfolding cPtr_def s1_def by blast
  have pos: "0 \<le> cPtr" using assms(2) by (simp add: cPtr_def)
  have "int (Suc u * nat (KM a)) = cPtr + KM a"
    using assms(2) by (simp add: cPtr_def algebra_simps)
  with assms(5) have o: "cPtr + KM a \<le> int m" by linarith
  have "spec_slot (s1 ys) a = spec_slot s a"
    by (rule spec_slot_cong) (simp add: s1_def)
  with assms(3) have "\<forall>x\<in>set (ue ! u). spec_slot (s1 ys) a x < KM a" by simp
  from sufficientStats_in_row[OF run this] o
  have "dbl s2 (c a) ! m = ys ! m" by (simp add: s1_def)
  also have "\<dots> = dbl s (c a) ! m"
    using fillArray_Some(2)[OF fy pos assms(4)] o by auto
  finally show ?thesis .
qed

lemma userStats_zeroed:
  assumes "userStats a ue t u (s, counts) = Some (s2, buf)" and "0 \<le> KM a" "i < nat (KM a)"
  obtains ys buf0 where
    "sufficientStats a (int u * KM a) (ue ! u) (s\<lparr>dbl := (dbl s)(c a := ys)\<rparr>, buf0) = Some (s2, buf)"
    "i < length buf0" "buf0 ! i = 0" "ys ! (u * nat (KM a) + i) = 0"
proof -
  define cPtr where "cPtr = int u * KM a"
  from userStats_parts[OF assms(1)] obtain ys buf0 where
    fy: "fillArray (dbl s (c a)) cPtr (KM a) 0 = Some ys"
    and t: "t < length counts" and fb: "fillArray (counts ! t) 0 (KM a) 0 = Some buf0"
    and run: "sufficientStats a cPtr (ue ! u) (s\<lparr>dbl := (dbl s)(c a := ys)\<rparr>, buf0) = Some (s2, buf)"
    unfolding cPtr_def by blast
  have pos: "0 \<le> cPtr" using assms(2) by (simp add: cPtr_def)
  have np: "nat cPtr = u * nat (KM a)" by (simp add: cPtr_def nat_mult_distrib)
  have ik: "int i < KM a" using assms(3) by linarith
  have lc: "i < length (counts ! t)"
    using fb assms(3) by (auto simp: fillArray_def split: if_splits)
  then have i0: "i < length buf0" using fillArray_Some(1)[OF fb] by simp
  have fit: "cPtr + KM a \<le> int (length (dbl s (c a)))"
    using fy assms(3) by (auto simp: fillArray_def split: if_splits)
  have z1: "ys ! (u * nat (KM a) + i) = 0"
  proof -
    have lt: "nat cPtr + i < length (dbl s (c a))" using fit assms(3) pos by linarith
    have "int (nat cPtr + i) = cPtr + int i" using pos by simp
    then have "cPtr \<le> int (nat cPtr + i) \<and> int (nat cPtr + i) < cPtr + KM a"
      using ik by simp
    with fillArray_Some(2)[OF fy pos lt] have "ys ! (nat cPtr + i) = 0" by simp
    then show ?thesis by (simp add: np)
  qed
  have z2: "buf0 ! i = 0"
    using fillArray_Some(2)[OF fb _ lc] ik by simp
  show ?thesis using that[OF run[unfolded cPtr_def] i0 z2 z1] .
qed

lemma userStats_counts:
  assumes "userStats a ue t u (s, counts) = Some (s2, buf)" and "0 \<le> KM a" "i < nat (KM a)"
  shows "buf ! i = spec_count s a (ue ! u) i"
proof -
  from userStats_zeroed[OF assms] obtain ys buf0 where
    run: "sufficientStats a (int u * KM a) (ue ! u) (s\<lparr>dbl := (dbl s)(c a := ys)\<rparr>, buf0) = Some (s2, buf)"
    and i0: "i < length buf0" and z: "buf0 ! i = 0" by blast
  have "spec_count (s\<lparr>dbl := (dbl s)(c a := ys)\<rparr>) a = spec_count s a"
    by (rule spec_slot_cong) simp
  with sufficientStats_counts[OF run i0] z show ?thesis by simp
qed

lemma userStats_values:
  assumes "userStats a ue t u (s, counts) = Some (s2, buf)" and "0 \<le> KM a"
    and "c a \<noteq> d a" "c a \<noteq> resids a" "i < nat (KM a)"
  shows "dbl s2 (c a) ! (u * nat (KM a) + i) = spec_sum s a (ue ! u) i"
proof -
  define s1 where "s1 ys = s\<lparr>dbl := (dbl s)(c a := ys)\<rparr>" for ys
  from userStats_zeroed[OF assms(1,2,5)] obtain ys buf0 where
    run: "sufficientStats a (int u * KM a) (ue ! u) (s1 ys, buf0) = Some (s2, buf)"
    and i0: "i < length buf0" and z: "ys ! (u * nat (KM a) + i) = 0"
    unfolding s1_def by blast
  have pos: "0 \<le> int u * KM a" using assms(2) by simp
  have np: "nat (int u * KM a) = u * nat (KM a)" by (simp add: nat_mult_distrib)
  have same: "spec_sum (s1 ys) a = spec_sum s a"
    using assms(3,4) by (auto intro!: spec_cong simp: s1_def)
  from sufficientStats_values[OF run _ _ pos i0] assms(3,4)
  have "dbl s2 (c a) ! (nat (int u * KM a) + i) =
      dbl (s1 ys) (c a) ! (nat (int u * KM a) + i) + spec_sum (s1 ys) a (ue ! u) i"
    by (simp add: s1_def)
  then show ?thesis using z same np by (simp add: s1_def)
qed

lemma userStats_ok:
  assumes "stats_wf a ue t u s counts"
  shows "\<exists>res. userStats a ue t u (s, counts) = Some res"
proof -
  define cPtr where "cPtr = int u * KM a"
  from assms have km: "0 \<le> KM a" and u: "u < length ue" and t: "t < length counts"
    and lb: "nat (KM a) \<le> length (counts ! t)"
    and fit: "Suc u * nat (KM a) \<le> length (dbl s (c a))"
    and tp: "topics_ok a s (ue ! u)"
    by (simp_all add: stats_wf_def)
  have pos: "0 \<le> cPtr" using km by (simp add: cPtr_def)
  have e: "int (Suc u * nat (KM a)) = cPtr + KM a"
    using km by (simp add: cPtr_def algebra_simps)
  have fitc: "cPtr + KM a \<le> int (length (dbl s (c a)))" using fit e by linarith
  from fillArray_ok[of "KM a" cPtr "dbl s (c a)" 0] pos fitc
  obtain ys where fy: "fillArray (dbl s (c a)) cPtr (KM a) 0 = Some ys" by auto
  have "KM a \<le> int (length (counts ! t))" using lb km by linarith
  with fillArray_ok[of "KM a" 0 "counts ! t" 0]
  obtain buf0 where fb: "fillArray (counts ! t) 0 (KM a) 0 = Some buf0" by auto
  define s1 where "s1 = s\<lparr>dbl := (dbl s)(c a := ys)\<rparr>"
  have ly: "length ys = length (dbl s (c a))" using fillArray_Some(1)[OF fy pos] .
  have lb0: "length buf0 = length (counts ! t)" using fillArray_Some(1)[OF fb] by simp
  have us: "u32 s1 = u32 s" and ls: "length (dbl s1 q) = length (dbl s q)" for q
    by (simp_all add: s1_def ly)
  have sl: "spec_slot s1 a = spec_slot s a" by (rule spec_slot_cong(1)[OF us])
  have so: "stat_ok a s1 = stat_ok a s" by (rule stat_ok_cong[OF us ls])
  have "\<forall>x\<in>set (ue ! u). stat_ok a s1 x \<and> 0 \<le> spec_slot s1 a x \<and>
      spec_slot s1 a x < int (length buf0) \<and> 0 \<le> cPtr + spec_slot s1 a x \<and>
      cPtr + spec_slot s1 a x < int (length (dbl s1 (c a)))"
  proof
    fix x assume "x \<in> set (ue ! u)"
    with tp have x: "stat_ok a s x" "0 \<le> spec_slot s a x" "spec_slot s a x < KM a"
      by (simp_all add: topics_ok_def list_all_iff)
    have "spec_slot s a x < int (length buf0)" using x(3) lb lb0 by linarith
    moreover have "cPtr + spec_slot s a x < int (length (dbl s1 (c a)))"
      using x(3) fitc ls by simp
    ultimately show "stat_ok a s1 x \<and> 0 \<le> spec_slot s1 a x \<and>
      spec_slot s1 a x < int (length buf0) \<and> 0 \<le> cPtr + spec_slot s1 a x \<and>
      cPtr + spec_slot s1 a x < int (length (dbl s1 (c a)))"
      using x pos by (simp add: sl so)
  qed
  from sufficientStats_ok[OF this] obtain res where
    "sufficientStats a cPtr (ue ! u) (s1, buf0) = Some res" by blast
  then show ?thesis
    using fy fb u t
    by (simp add: userStats_def fillArrayD_def fillArrayI_def rd_def cPtr_def s1_def)
qed


section \<open>One iteration of the loop over the users\<close>

lemma userIter_parts:
  assumes "userIter a ue t u (s, counts) = Some (s3, counts')"
  obtains s2 buf where "userStats a ue t u (s, counts) = Some (s2, buf)"
    "sampleNew a t (int u * KM a) buf [0..<nat (KM a)] s2 = Some s3"
    "counts' = counts[t := buf]"
  using assms by (auto simp: userIter_def bind_eq_Some_conv)

lemma userIter_frame:
  assumes "userIter a ue t u (s, counts) = Some (s3, counts')" and "0 \<le> KM a"
  shows "u32 s3 = u32 s" "jag s3 = jag s"
    "rngs s3 = (rngs s)[t := sdrop (nat (KM a)) (rngs s ! t)]"
    "q \<noteq> c a \<Longrightarrow> dbl s3 q = dbl s q"
    "length (dbl s3 (c a)) = length (dbl s (c a))"
    "map length counts' = map length counts" "u < length ue"
    "m < length (dbl s (c a)) \<Longrightarrow> m < u * nat (KM a) \<Longrightarrow> dbl s3 (c a) ! m = dbl s (c a) ! m"
    "0 < KM a \<Longrightarrow> Suc u * nat (KM a) \<le> length (dbl s (c a))"
    "0 < KM a \<Longrightarrow> t < length (rngs s)"
proof -
  from userIter_parts[OF assms(1)] obtain s2 buf where
    st: "userStats a ue t u (s, counts) = Some (s2, buf)"
    and sn: "sampleNew a t (int u * KM a) buf [0..<nat (KM a)] s2 = Some s3"
    and cn: "counts' = counts[t := buf]" by blast
  note f1 = userStats_frame[OF st assms(2)]
  have pos: "0 \<le> int u * KM a" using assms(2) by simp
  have np: "nat (int u * KM a) = u * nat (KM a)" by (simp add: nat_mult_distrib)
  note f2 = sampleNew_frame[OF sn pos]
  show "u32 s3 = u32 s" "jag s3 = jag s" "length (dbl s3 (c a)) = length (dbl s (c a))"
    "u < length ue"
    using f1 f2 by simp_all
  show "rngs s3 = (rngs s)[t := sdrop (nat (KM a)) (rngs s ! t)]"
    using f2(5) f1(3) by simp
  show "Suc u * nat (KM a) \<le> length (dbl s (c a))" if "0 < KM a"
    using f1(11)[OF that] .
  show "t < length (rngs s)" if "0 < KM a"
  proof -
    from that have "[0..<nat (KM a)] = 0 # [Suc 0..<nat (KM a)]" by (simp add: upt_conv_Cons)
    from sampleNew_Cons[OF sn[unfolded this]] show ?thesis using f1(3) by simp
  qed
  show "dbl s3 q = dbl s q" if "q \<noteq> c a" for q
    using f2(3)[OF that] f1(4)[OF that] by simp
  show "map length counts' = map length counts"
    unfolding cn using f1(6) by (simp add: map_update list_update_same_conv f1(8))
  show "dbl s3 (c a) ! m = dbl s (c a) ! m"
    if "m < length (dbl s (c a))" "m < u * nat (KM a)"
  proof -
    from that(2) have "m < nat (int u * KM a) + 0 \<or> nat (int u * KM a) + nat (KM a) \<le> m"
      by (simp add: np)
    from sampleNew_outside[OF sn pos this]
    have "dbl s3 (c a) ! m = dbl s2 (c a) ! m" .
    then show ?thesis using f1(10)[OF that] by simp
  qed
qed

lemma userIter_row:
  assumes "userIter a ue t u (s, counts) = Some (s3, counts')" and "0 \<le> KM a"
    and "\<forall>x\<in>set (ue ! u). spec_slot s a x < KM a"
    and "m < length (dbl s (c a))" "Suc u * nat (KM a) \<le> m"
  shows "dbl s3 (c a) ! m = dbl s (c a) ! m"
proof -
  from userIter_parts[OF assms(1)] obtain s2 buf where
    st: "userStats a ue t u (s, counts) = Some (s2, buf)"
    and sn: "sampleNew a t (int u * KM a) buf [0..<nat (KM a)] s2 = Some s3"
    by blast
  have pos: "0 \<le> int u * KM a" using assms(2) by simp
  have np: "nat (int u * KM a) = u * nat (KM a)" by (simp add: nat_mult_distrib)
  from assms(5) have "m < nat (int u * KM a) + 0 \<or> nat (int u * KM a) + nat (KM a) \<le> m"
    by (simp add: np ac_simps)
  from sampleNew_outside[OF sn pos this]
  have "dbl s3 (c a) ! m = dbl s2 (c a) ! m" .
  then show ?thesis using userStats_row[OF st assms(2-5)] by simp
qed

lemma userIter_values:
  assumes "userIter a ue t u (s, counts) = Some (s3, counts')" and "0 \<le> KM a"
    and "c a \<noteq> d a" "c a \<noteq> resids a" "i < nat (KM a)"
  shows "dbl s3 (c a) ! (u * nat (KM a) + i) =
     spec_offset (c0 a) (invSigmaSqd0 a) (invSigmaSqd a)
       (spec_count s a (ue ! u) i) (spec_sum s a (ue ! u) i) ((rngs s ! t) !! i)"
proof -
  from userIter_parts[OF assms(1)] obtain s2 buf where
    st: "userStats a ue t u (s, counts) = Some (s2, buf)"
    and sn: "sampleNew a t (int u * KM a) buf [0..<nat (KM a)] s2 = Some s3"
    by blast
  note f1 = userStats_frame[OF st assms(2)]
  note v1 = userStats_values[OF st assms(2-5)] and v2 = userStats_counts[OF st assms(2,5)]
  have pos: "0 \<le> int u * KM a" using assms(2) by simp
  have np: "nat (int u * KM a) = u * nat (KM a)" by (simp add: nat_mult_distrib)
  from sampleNew_inside[OF sn pos _ assms(5), unfolded np]
  have "dbl s3 (c a) ! (u * nat (KM a) + i) =
        spec_offset (c0 a) (invSigmaSqd0 a) (invSigmaSqd a) (buf ! i) (dbl s2 (c a) ! (u * nat (KM a) + i))
          ((rngs s2 ! t) !! (i - 0))" by simp
  then show ?thesis using v1 v2 f1(3) by simp
qed

lemma userIter_ok:
  assumes "iter_wf a ue t u s counts"
  shows "\<exists>res. userIter a ue t u (s, counts) = Some res"
proof -
  from assms have wf: "stats_wf a ue t u s counts" and rg: "0 < KM a \<longrightarrow> t < length (rngs s)"
    by (simp_all add: iter_wf_def)
  from wf have km: "0 \<le> KM a" and fit: "Suc u * nat (KM a) \<le> length (dbl s (c a))"
    by (simp_all add: stats_wf_def)
  from userStats_ok[OF wf] obtain s2 buf where
    st: "userStats a ue t u (s, counts) = Some (s2, buf)" by force
  note f = userStats_frame[OF st km]
  have e: "int (Suc u * nat (KM a)) = int u * KM a + KM a"
    using km by (simp add: algebra_simps)
  have "\<forall>i\<in>set [0..<nat (KM a)]. i < length buf \<and> 0 \<le> int u * KM a + int i \<and>
      int u * KM a + int i < int (length (dbl s2 (c a)))"
  proof
    fix i assume "i \<in> set [0..<nat (KM a)]"
    then have i: "i < nat (KM a)" by simp
    then have "int i < KM a" by linarith
    moreover have "int u * KM a + KM a \<le> int (length (dbl s2 (c a)))"
      using fit e f(5) by linarith
    moreover have "0 \<le> int u * KM a" using km by simp
    ultimately show "i < length buf \<and> 0 \<le> int u * KM a + int i \<and>
      int u * KM a + int i < int (length (dbl s2 (c a)))"
      using i f(6,9) by simp
  qed
  moreover have "[0..<nat (KM a)] \<noteq> [] \<longrightarrow> t < length (rngs s2)"
    using rg f(3) by simp
  ultimately obtain s3 where "sampleNew a t (int u * KM a) buf [0..<nat (KM a)] s2 = Some s3"
    using sampleNew_ok by blast
  with st show ?thesis by (simp add: userIter_def)
qed


section \<open>The loop over the users\<close>

lemma thread_iters_rec:
  "k < n \<Longrightarrow> thread_iters sched t k n = (if sched k = t then 1 else 0) + thread_iters sched t (Suc k) n"
  by (simp add: thread_iters_def upt_conv_Cons)

lemma thread_iters_empty: "n \<le> k \<Longrightarrow> thread_iters sched t k n = 0"
  by (simp add: thread_iters_def)

lemma userLoop_step:
  assumes "userLoop a ue sched [k..<n] (s, counts) = Some res" "k < n"
  obtains s1 counts1 where "userIter a ue (sched k) k (s, counts) = Some (s1, counts1)"
    "userLoop a ue sched [Suc k..<n] (s1, counts1) = Some res"
  using assms by (auto simp: upt_conv_Cons bind_eq_Some_conv)

lemma userLoop_frame_all:
  assumes "userLoop a ue sched [k..<n] (s, counts) = Some (s', counts')" and "0 \<le> KM a"
  shows "u32 s' = u32 s \<and> jag s' = jag s \<and> (\<forall>q. q \<noteq> c a \<longrightarrow> dbl s' q = dbl s q) \<and>
     length (dbl s' (c a)) = length (dbl s (c a)) \<and> length (rngs s') = length (rngs s) \<and>
     (\<forall>t<length (rngs s). rngs s' ! t = sdrop (nat (KM a) * thread_iters sched t k n) (rngs s ! t)) \<and>
     (\<forall>m<length (dbl s (c a)). m < k * nat (KM a) \<longrightarrow> dbl s' (c a) ! m = dbl s (c a) ! m)"
  using assms
proof (induction "n - k" arbitrary: k s counts)
  case 0
  then have "[k..<n] = []" "n \<le> k" by simp_all
  with "0.prems" have "s' = s" by simp
  then show ?case using \<open>n \<le> k\<close> by (simp add: thread_iters_empty)
next
  case (Suc j)
  then have kn: "k < n" and j: "j = n - Suc k" by linarith+
  from userLoop_step[OF Suc.prems(1) kn] obtain s1 counts1 where
    it: "userIter a ue (sched k) k (s, counts) = Some (s1, counts1)"
    and lp: "userLoop a ue sched [Suc k..<n] (s1, counts1) = Some (s', counts')" by blast
  note f = userIter_frame[OF it Suc.prems(2)]
  note ih = Suc.hyps(1)[OF j lp Suc.prems(2)]
  have rg: "rngs s' ! t = sdrop (nat (KM a) * thread_iters sched t k n) (rngs s ! t)"
    if t: "t < length (rngs s)" for t
  proof -
    have t1: "t < length (rngs s1)" using t f(3) by simp
    with ih have e: "rngs s' ! t = sdrop (nat (KM a) * thread_iters sched t (Suc k) n) (rngs s1 ! t)"
      by blast
    show ?thesis
    proof (cases "sched k = t")
      case True
      then have "rngs s1 ! t = sdrop (nat (KM a)) (rngs s ! t)" using f(3) t by simp
      then show ?thesis using e True by (simp add: thread_iters_rec[OF kn])
    next
      case False
      then have "rngs s1 ! t = rngs s ! t" using f(3) by simp
      then show ?thesis using e False by (simp add: thread_iters_rec[OF kn])
    qed
  qed
  have out: "dbl s' (c a) ! m = dbl s (c a) ! m"
    if m: "m < length (dbl s (c a))" and o: "m < k * nat (KM a)" for m
  proof -
    have m1: "m < length (dbl s1 (c a))" using m f(5) by simp
    have o1: "m < Suc k * nat (KM a)" using o by simp
    from ih m1 o1 have "dbl s' (c a) ! m = dbl s1 (c a) ! m" by blast
    then show ?thesis using f(8)[OF m o] by simp
  qed
  have "u32 s' = u32 s" "jag s' = jag s" "length (dbl s' (c a)) = length (dbl s (c a))"
    "length (rngs s') = length (rngs s)"
    using ih f(1,2,3,5) by simp_all
  moreover have "\<forall>q. q \<noteq> c a \<longrightarrow> dbl s' q = dbl s q" using ih f(4) by simp
  ultimately show ?case using rg out by blast
qed

lemma userLoop_frame:
  assumes "userLoop a ue sched [k..<n] (s, counts) = Some (s', counts')" and "0 \<le> KM a"
  shows "u32 s' = u32 s" "jag s' = jag s" "q \<noteq> c a \<Longrightarrow> dbl s' q = dbl s q"
    "length (dbl s' (c a)) = length (dbl s (c a))" "length (rngs s') = length (rngs s)"
    "t < length (rngs s) \<Longrightarrow> rngs s' ! t = sdrop (nat (KM a) * thread_iters sched t k n) (rngs s ! t)"
    "m < length (dbl s (c a)) \<Longrightarrow> m < k * nat (KM a) \<Longrightarrow> dbl s' (c a) ! m = dbl s (c a) ! m"
proof -
  note all = userLoop_frame_all[OF assms]
  show "u32 s' = u32 s" "jag s' = jag s" "q \<noteq> c a \<Longrightarrow> dbl s' q = dbl s q"
    "length (dbl s' (c a)) = length (dbl s (c a))" "length (rngs s') = length (rngs s)"
    using all by simp_all
  show "rngs s' ! t = sdrop (nat (KM a) * thread_iters sched t k n) (rngs s ! t)"
    if "t < length (rngs s)" using all that by blast
  show "dbl s' (c a) ! m = dbl s (c a) ! m"
    if "m < length (dbl s (c a))" "m < k * nat (KM a)"
    using all that by blast
qed

lemma userLoop_values:
  assumes "userLoop a ue sched [k..<n] (s, counts) = Some (s', counts')" and "0 \<le> KM a"
    and "c a \<noteq> d a" "c a \<noteq> resids a" "k \<le> p" "p < n" "i < nat (KM a)"
  shows "dbl s' (c a) ! (p * nat (KM a) + i) =
     spec_offset (c0 a) (invSigmaSqd0 a) (invSigmaSqd a)
       (spec_count s a (ue ! p) i) (spec_sum s a (ue ! p) i)
       ((rngs s ! sched p) !! (nat (KM a) * thread_iters sched (sched p) k p + i))"
  using assms
proof (induction "n - k" arbitrary: k s counts)
  case 0
  then show ?case by simp
next
  case (Suc j)
  then have kn: "k < n" and j: "j = n - Suc k" by linarith+
  note ne = Suc.prems(3,4) and i = Suc.prems(7)
  have KM: "0 < KM a" using i by simp
  from userLoop_step[OF Suc.prems(1) kn] obtain s1 counts1 where
    it: "userIter a ue (sched k) k (s, counts) = Some (s1, counts1)"
    and lp: "userLoop a ue sched [Suc k..<n] (s1, counts1) = Some (s', counts')" by blast
  note f = userIter_frame[OF it Suc.prems(2)]
  note g = userLoop_frame[OF lp Suc.prems(2)]
  show ?case
  proof (cases "p = k")
    case True
    have lt: "k * nat (KM a) + i < Suc k * nat (KM a)" using i by simp
    with f(9)[OF KM] have "k * nat (KM a) + i < length (dbl s1 (c a))" using f(5) by simp
    from g(7)[OF this lt] have "dbl s' (c a) ! (k * nat (KM a) + i) = dbl s1 (c a) ! (k * nat (KM a) + i)" .
    with userIter_values[OF it Suc.prems(2) ne i] show ?thesis
      using True by (simp add: thread_iters_empty)
  next
    case False
    with Suc.prems(5) have kp: "Suc k \<le> p" "k < p" by simp_all
    have same: "spec_sum s1 a = spec_sum s a" "spec_count s1 a = spec_count s a"
      using ne f(1) f(4) by (auto intro!: spec_cong)
    have tk: "sched k < length (rngs s)" using f(10)[OF KM] .
    have dr: "(rngs s1 ! sched p) !! (nat (KM a) * thread_iters sched (sched p) (Suc k) p + i) =
        (rngs s ! sched p) !! (nat (KM a) * thread_iters sched (sched p) k p + i)"
    proof (cases "sched k = sched p")
      case True
      then have "rngs s1 ! sched p = sdrop (nat (KM a)) (rngs s ! sched p)" using f(3) tk by simp
      then show ?thesis using True
        by (simp add: thread_iters_rec[OF kp(2)] sdrop_snth algebra_simps)
    next
      case False
      then have "rngs s1 ! sched p = rngs s ! sched p" using f(3) by simp
      then show ?thesis using False by (simp add: thread_iters_rec[OF kp(2)])
    qed
    from Suc.hyps(1)[OF j lp Suc.prems(2) ne kp(1) Suc.prems(6) i]
    show ?thesis using same dr by simp
  qed
qed

lemma userLoop_ok:
  assumes "0 \<le> KM a" and "\<forall>u. k \<le> u \<and> u < n \<longrightarrow> iter_wf a ue (sched u) u s counts"
  shows "\<exists>res. userLoop a ue sched [k..<n] (s, counts) = Some res"
  using assms(2)
proof (induction "n - k" arbitrary: k s counts)
  case 0
  then have e: "[k..<n] = []" by simp
  show ?case unfolding e by simp
next
  case (Suc j)
  then have kn: "k < n" and j: "j = n - Suc k" by linarith+
  then have up: "[k..<n] = k # [Suc k..<n]" by (simp add: upt_conv_Cons)
  from Suc.prems kn have "iter_wf a ue (sched k) k s counts" by simp
  from userIter_ok[OF this] obtain s1 counts1 where
    it: "userIter a ue (sched k) k (s, counts) = Some (s1, counts1)" by force
  note f = userIter_frame[OF it assms(1)]
  have ls: "length (dbl s1 q) = length (dbl s q)" for q
    using f(4)[of q] f(5) by (cases "q = c a") simp_all
  have tp: "topics_ok a s1 = topics_ok a s"
    by (rule topics_ok_cong[OF f(1) ls])
  have lc: "length counts1 = length counts"
    using f(6) by (metis length_map)
  have lt: "length (counts1 ! t) = length (counts ! t)" if "t < length counts" for t
    using f(6) lc that by (metis nth_map)
  have lr: "length (rngs s1) = length (rngs s)" using f(3) by simp
  have "\<forall>u. Suc k \<le> u \<and> u < n \<longrightarrow> iter_wf a ue (sched u) u s1 counts1"
    using Suc.prems by (auto simp: iter_wf_def stats_wf_def tp lc lt lr ls)
  from Suc.hyps(1)[OF j this] show ?case
    unfolding up using it by simp
qed


section \<open>The driver\<close>

lemma sampleOffsets_parts:
  assumes "sampleOffsets pf sched a s = Some s'"
  obtains counts counts' where "0 \<le> KM a" "numUsers a \<le> int (length (jag s (exampsByUser a)))"
    "mxMalloc_counts pf (KM a) = Some counts"
    "userLoop a (take (nat (numUsers a)) (jag s (exampsByUser a))) sched [0..<nat (numUsers a)]
       (s, counts) = Some (s', counts')"
  using assms
  by (auto simp: sampleOffsets_def unpackJagged_def mxMalloc_counts_def bind_eq_Some_conv
      split: if_splits)

lemma sampleOffsets_frame:
  assumes "sampleOffsets pf sched a s = Some s'"
  shows "u32 s' = u32 s" "jag s' = jag s" "q \<noteq> c a \<Longrightarrow> dbl s' q = dbl s q"
    "length (dbl s' (c a)) = length (dbl s (c a))" "length (rngs s') = length (rngs s)"
    "t < length (rngs s) \<Longrightarrow>
       rngs s' ! t = sdrop (nat (KM a) * thread_iters sched t 0 (nat (numUsers a))) (rngs s ! t)"
proof -
  from sampleOffsets_parts[OF assms] obtain counts counts' where km: "0 \<le> KM a"
    and lp: "userLoop a (take (nat (numUsers a)) (jag s (exampsByUser a))) sched [0..<nat (numUsers a)]
       (s, counts) = Some (s', counts')" by blast
  note f = userLoop_frame[OF lp km]
  show "u32 s' = u32 s" "jag s' = jag s" "length (dbl s' (c a)) = length (dbl s (c a))"
    "length (rngs s') = length (rngs s)" using f by simp_all
  show "dbl s' q = dbl s q" if "q \<noteq> c a" using f(3)[OF that] .
  show "rngs s' ! t = sdrop (nat (KM a) * thread_iters sched t 0 (nat (numUsers a))) (rngs s ! t)"
    if "t < length (rngs s)" using f(6)[OF that] .
qed

lemma sampleOffsets_values:
  assumes "sampleOffsets pf sched a s = Some s'"
    and "c a \<noteq> d a" "c a \<noteq> resids a" "p < nat (numUsers a)" "i < nat (KM a)"
  shows "dbl s' (c a) ! (p * nat (KM a) + i) =
     spec_offset (c0 a) (invSigmaSqd0 a) (invSigmaSqd a)
       (spec_count s a (jag s (exampsByUser a) ! p) i) (spec_sum s a (jag s (exampsByUser a) ! p) i)
       (draw_of sched a s p i)"
proof -
  from sampleOffsets_parts[OF assms(1)] obtain counts counts' where km: "0 \<le> KM a"
    and lp: "userLoop a (take (nat (numUsers a)) (jag s (exampsByUser a))) sched [0..<nat (numUsers a)]
       (s, counts) = Some (s', counts')" by blast
  from userLoop_values[OF lp km assms(2,3) _ assms(4,5)] assms(4)
  show ?thesis by (simp add: draw_of_def)
qed

lemma sampleOffsets_ok:
  assumes "call_wf pf sched a s"
  shows "\<exists>s'. sampleOffsets pf sched a s = Some s'"
proof -
  define n where "n = nat (numUsers a)"
  define ue where "ue = take n (jag s (exampsByUser a))"
  define counts where
    "counts = map (\<lambda>t. map (fresh pf t) [0..<nat (KM a) * PTR_INTS pf]) [0..<MAX_NUM_THREADS pf]"
  from assms have km: "0 \<le> KM a" and pi: "1 \<le> PTR_INTS pf"
    and nj: "numUsers a \<le> int (length (jag s (exampsByUser a)))"
    and fit: "n * nat (KM a) \<le> length (dbl s (c a))"
    and each: "\<forall>u<n. sched u < MAX_NUM_THREADS pf \<and> sched u < length (rngs s) \<and>
                    topics_ok a s (jag s (exampsByUser a) ! u)"
    by (simp_all add: call_wf_def n_def list_all_iff)
  have "iter_wf a ue (sched u) u s counts" if "u < n" for u
  proof -
    from each that have t: "sched u < MAX_NUM_THREADS pf" "sched u < length (rngs s)"
      and tp: "topics_ok a s (jag s (exampsByUser a) ! u)" by simp_all
    have "n \<le> length (jag s (exampsByUser a))" using nj by (simp add: n_def)
    with that have u: "u < length ue" "ue ! u = jag s (exampsByUser a) ! u"
      by (simp_all add: ue_def)
    have lc: "length (counts ! sched u) = nat (KM a) * PTR_INTS pf"
      using t(1) by (simp add: counts_def)
    have "nat (KM a) * 1 \<le> nat (KM a) * PTR_INTS pf" using pi by (intro mult_le_mono2)
    then have lb: "nat (KM a) \<le> length (counts ! sched u)" using lc by simp
    have "Suc u * nat (KM a) \<le> n * nat (KM a)" using that by (intro mult_le_mono1) simp
    with fit have "Suc u * nat (KM a) \<le> length (dbl s (c a))" by linarith
    then show ?thesis
      using km u t tp lb by (simp add: iter_wf_def stats_wf_def counts_def)
  qed
  then have "\<forall>u. 0 \<le> u \<and> u < n \<longrightarrow> iter_wf a ue (sched u) u s counts" by simp
  from userLoop_ok[OF km this] obtain res where
    "userLoop a ue sched [0..<n] (s, counts) = Some res" by blast
  then show ?thesis
    using km nj
    by (cases res)
      (simp add: sampleOffsets_def unpackJagged_def mxMalloc_counts_def n_def ue_def counts_def)
qed

lemma mexFunction_unfold:
  "mexFunction pf sched1 sched2 m sampParams s = do {
     s1 \<leftarrow> (if KM (userParams m) > 0 then do {
               b \<leftarrow> sampFlag sampParams 0;
               if b then sampleOffsets pf sched1 (userParams m) s else Some s }
             else Some s);
     (if KU (userParams m) > 0 then do {
        b \<leftarrow> sampFlag sampParams 1;
        if b then sampleOffsets pf sched2 (itemParams m) s1 else Some s1 }
      else Some s1) }"
proof -
  have k: "double_to_int (model_KM m + 1/2) = KM (userParams m)"
    "double_to_int (model_KU m + 1/2) = KU (userParams m)"
    by (simp_all add: userParams_def)
  show ?thesis
    unfolding mexFunction_def Let_def userParams_def[symmetric] itemParams_def[symmetric]
    unfolding k by (rule refl)
qed

lemma sampFlag_present:
  assumes "\<forall>fl. sampParams = Some fl \<longrightarrow> k < length fl"
  shows "sampFlag sampParams (int k) = Some (spec_flag sampParams k)"
  using assms by (cases sampParams) (simp_all add: sampFlag_def spec_flag_def rd_def)

lemma sum_list_incr:
  "k < length xs \<Longrightarrow> sum_list (xs[k := xs ! k + 1]) = sum_list xs + (1::int)"
  by (induction xs arbitrary: k) (auto split: nat.splits)

lemma spec_count_0_sum:
  assumes "spec_count s a xs i = 0"
  shows "spec_sum s a xs i = 0"
  using assms by (simp add: spec_count_def spec_sum_def)

lemma params_arrays [simp]:
  "c (userParams m) = Arr_c" "d (userParams m) = Arr_d" "resids (userParams m) = Arr_resids"
  "c (itemParams m) = Arr_d" "d (itemParams m) = Arr_c" "resids (itemParams m) = Arr_resids"
  "exampsByUser (userParams m) = Arr_exampsByUser" "exampsByUser (itemParams m) = Arr_exampsByItem"
  "KM (itemParams m) = KU (userParams m)" "KU (itemParams m) = KM (userParams m)"
  "c0 (itemParams m) = model_d0 m" "c0 (userParams m) = model_c0 m"
  "invSigmaSqd0 (itemParams m) = 1 / model_sigmaSqd0 m" "invSigmaSqd (itemParams m) = 1 / model_sigmaSqd m"
  by (simp_all add: userParams_def itemParams_def)

lemma mexFunction_both:
  assumes "mexFunction pf sched1 sched2 m sampParams s = Some s2"
    and "spec_user_enabled m sampParams" "spec_item_enabled m sampParams"
  obtains s1 where "sampleOffsets pf sched1 (userParams m) s = Some s1"
    "sampleOffsets pf sched2 (itemParams m) s1 = Some s2"
proof -
  from assms(2,3) have k: "KM (userParams m) > 0" "KU (userParams m) > 0"
    and fl: "spec_flag sampParams 0" "spec_flag sampParams 1"
    by (simp_all add: spec_user_enabled_def spec_item_enabled_def)
  from assms(1) k obtain s1 b0 b1 where
    "sampFlag sampParams 0 = Some b0" "sampFlag sampParams 1 = Some b1"
    "(if b0 then sampleOffsets pf sched1 (userParams m) s else Some s) = Some s1"
    "(if b1 then sampleOffsets pf sched2 (itemParams m) s1 else Some s1) = Some s2"
    by (auto simp: mexFunction_unfold bind_eq_Some_conv)
  moreover from this fl have "b0" "b1"
    by (cases sampParams; simp add: sampFlag_def spec_flag_def rd_Some)+
  ultimately show ?thesis using that by simp
qed


section \<open>Two runs compared step by step\<close>

lemma rel_option_bindI:
  assumes "rel_option R x y" and "\<And>u v. R u v \<Longrightarrow> rel_option S (f u) (g v)"
  shows "rel_option S (x \<bind> f) (y \<bind> g)"
  using assms by (cases x; cases y) simp_all

lemma nth_beyond:
  "length xs = length ys \<Longrightarrow> length xs \<le> k \<Longrightarrow> xs ! k = ys ! k"
proof (induction xs arbitrary: ys k)
  case Nil
  then show ?case by simp
next
  case (Cons x xs)
  then obtain y ys' where ys: "ys = y # ys'" by (cases ys) auto
  from Cons.prems obtain k' where k: "k = Suc k'" by (cases k) auto
  from Cons.IH[of ys' k'] Cons.prems show ?case by (simp add: ys k)
qed

lemma agree_on_cong:
  assumes "agree_on a A s1 s2" "c a \<noteq> d a" "c a \<noteq> resids a"
  shows "stat_ok a s1 = stat_ok a s2" "spec_slot s1 a = spec_slot s2 a"
    "spec_contribution s1 a = spec_contribution s2 a"
proof -
  from assms have e: "u32 s1 = u32 s2" "dbl s1 (d a) = dbl s2 (d a)" "dbl s1 (resids a) = dbl s2 (resids a)"
    by (auto simp: agree_on_def)
  show "spec_slot s1 a = spec_slot s2 a" "spec_contribution s1 a = spec_contribution s2 a"
    using spec_cong[OF e] by simp_all
  show "stat_ok a s1 = stat_ok a s2"
    by (rule ext) (simp add: stat_ok_def e)
qed

lemma agree_on_update:
  assumes "agree_on a A s1 s2" "j \<in> A \<longrightarrow> j < length (dbl s1 (c a)) \<longrightarrow> v1 = v2"
  shows "agree_on a A (s1\<lparr>dbl := (dbl s1)(c a := (dbl s1 (c a))[j := v1])\<rparr>)
                      (s2\<lparr>dbl := (dbl s2)(c a := (dbl s2 (c a))[j := v2])\<rparr>)"
proof -
  have "(dbl s1 (c a))[j := v1] ! m = (dbl s2 (c a))[j := v2] ! m"
    if "m \<in> A" "m < length (dbl s1 (c a))" for m
  proof (cases "m = j")
    case True
    with that assms show ?thesis by (simp add: agree_on_def)
  next
    case False
    with that assms(1) show ?thesis by (simp add: agree_on_def)
  qed
  with assms(1) show ?thesis by (simp add: agree_on_def)
qed

lemma sufficientStats_sim:
  assumes "agree_on a A s1 s2" "c a \<noteq> d a" "c a \<noteq> resids a"
  shows "rel_option (\<lambda>(t1, n1) (t2, n2). agree_on a A t1 t2 \<and> n1 = n2)
     (sufficientStats a cPtr xs (s1, cnt)) (sufficientStats a cPtr xs (s2, cnt))"
  using assms(1)
proof (induction xs arbitrary: s1 s2 cnt)
  case Nil
  then show ?case by simp
next
  case (Cons x xs)
  note cg = agree_on_cong[OF Cons.prems assms(2,3)]
  define i where "i = spec_slot s2 a x"
  define j where "j = cPtr + i"
  have len: "length (dbl s1 (c a)) = length (dbl s2 (c a))"
    using Cons.prems by (simp add: agree_on_def)
  define ok where "ok \<longleftrightarrow> stat_ok a s2 x \<and> 0 \<le> j \<and> j < int (length (dbl s2 (c a))) \<and>
    0 \<le> i \<and> i < int (length cnt)"
  define t1 where "t1 = s1\<lparr>dbl := (dbl s1)(c a :=
      (dbl s1 (c a))[nat j := dbl s1 (c a) ! nat j + spec_contribution s2 a x])\<rparr>"
  define t2 where "t2 = s2\<lparr>dbl := (dbl s2)(c a :=
      (dbl s2 (c a))[nat j := dbl s2 (c a) ! nat j + spec_contribution s2 a x])\<rparr>"
  define cnt' where "cnt' = cnt[nat i := cnt ! nat i + 1]"
  have e1: "sufficientStats a cPtr (x # xs) (s1, cnt) =
      (if ok then sufficientStats a cPtr xs (t1, cnt') else None)"
    unfolding sufficientStats_Cons_eq
    by (simp add: cg len i_def j_def ok_def t1_def cnt'_def Let_def)
  have e2: "sufficientStats a cPtr (x # xs) (s2, cnt) =
      (if ok then sufficientStats a cPtr xs (t2, cnt') else None)"
    unfolding sufficientStats_Cons_eq
    by (simp add: i_def j_def ok_def t2_def cnt'_def Let_def)
  have "agree_on a A t1 t2"
    unfolding t1_def t2_def using Cons.prems
    by (intro agree_on_update) (auto simp: agree_on_def)
  from Cons.IH[OF this] show ?case
    unfolding e1 e2 by simp
qed

lemma agree_on_mono: "agree_on a A s1 s2 \<Longrightarrow> B \<subseteq> A \<Longrightarrow> agree_on a B s1 s2"
  by (auto simp: agree_on_def)

lemma sampleNew_sim:
  assumes "agree_on a A s1 s2" "\<forall>i\<in>set is. nat (cPtr + int i) \<in> A"
  shows "rel_option (agree_on a A) (sampleNew a t cPtr cnt is s1) (sampleNew a t cPtr cnt is s2)"
  using assms
proof (induction "is" arbitrary: s1 s2)
  case Nil
  then show ?case by simp
next
  case (Cons i "is")
  define j where "j = cPtr + int i"
  define ok where "ok \<longleftrightarrow> i < length cnt \<and> 0 \<le> j \<and> j < int (length (dbl s2 (c a))) \<and>
    t < length (rngs s2)"
  define nw where "nw s = s\<lparr>rngs := (rngs s)[t := stl (rngs s ! t)],
           dbl := (dbl s)(c a := (dbl s (c a))[nat j :=
             spec_offset (c0 a) (invSigmaSqd0 a) (invSigmaSqd a) (cnt ! i) (dbl s (c a) ! nat j)
               (shd (rngs s ! t))])\<rparr>" for s :: store
  have len: "length (dbl s1 (c a)) = length (dbl s2 (c a))" and rg: "rngs s1 = rngs s2"
    using Cons.prems(1) by (simp_all add: agree_on_def)
  have e1: "sampleNew a t cPtr cnt (i # is) s1 = (if ok then sampleNew a t cPtr cnt is (nw s1) else None)"
    unfolding sampleNew_Cons_eq by (simp add: len rg j_def ok_def nw_def Let_def)
  have e2: "sampleNew a t cPtr cnt (i # is) s2 = (if ok then sampleNew a t cPtr cnt is (nw s2) else None)"
    unfolding sampleNew_Cons_eq by (simp add: j_def ok_def nw_def Let_def)
  have jA: "nat j \<in> A" using Cons.prems(2) by (simp add: j_def)
  have old: "nat j < length (dbl s1 (c a)) \<Longrightarrow> dbl s1 (c a) ! nat j = dbl s2 (c a) ! nat j"
    using Cons.prems(1) jA by (simp add: agree_on_def)
  have "agree_on a A (s1\<lparr>rngs := (rngs s1)[t := stl (rngs s1 ! t)]\<rparr>)
      (s2\<lparr>rngs := (rngs s2)[t := stl (rngs s2 ! t)]\<rparr>)"
    using Cons.prems(1) by (simp add: agree_on_def)
  from agree_on_update[OF this, of "nat j"
      "spec_offset (c0 a) (invSigmaSqd0 a) (invSigmaSqd a) (cnt ! i) (dbl s1 (c a) ! nat j) (shd (rngs s1 ! t))"
      "spec_offset (c0 a) (invSigmaSqd0 a) (invSigmaSqd a) (cnt ! i) (dbl s2 (c a) ! nat j) (shd (rngs s2 ! t))"]
    old rg
  have "agree_on a A (nw s1) (nw s2)" by (simp add: nw_def)
  from Cons.IH[OF this] Cons.prems(2) show ?case
    unfolding e1 e2 by simp
qed

lemma fillArrayD_sim:
  assumes "agree_on a A s1 s2" "0 \<le> p"
  shows "rel_option (agree_on a (A \<union> {m. p \<le> int m \<and> int m < p + n}))
     (fillArrayD s1 (c a) p n v) (fillArrayD s2 (c a) p n v)"
proof -
  have len: "length (dbl s1 (c a)) = length (dbl s2 (c a))"
    using assms(1) by (simp add: agree_on_def)
  show ?thesis
  proof (cases "fillArray (dbl s1 (c a)) p n v")
    case None
    then have "fillArray (dbl s2 (c a)) p n v = None"
      by (auto simp: fillArray_def len split: if_splits)
    with None show ?thesis by (simp add: fillArrayD_def)
  next
    case (Some ys1)
    then obtain ys2 where y2: "fillArray (dbl s2 (c a)) p n v = Some ys2"
      by (auto simp: fillArray_def len split: if_splits)
    note f1 = fillArray_Some[OF Some assms(2)] and f2 = fillArray_Some[OF y2 assms(2)]
    have "ys1 ! m = ys2 ! m"
      if "m \<in> A \<union> {m. p \<le> int m \<and> int m < p + n}" "m < length ys1" for m
    proof -
      from that(2) have m: "m < length (dbl s1 (c a))" "m < length (dbl s2 (c a))"
        using f1(1) len by simp_all
      show ?thesis
        using f1(2)[OF m(1)] f2(2)[OF m(2)] that(1) assms(1) m by (auto simp: agree_on_def)
    qed
    then have "agree_on a (A \<union> {m. p \<le> int m \<and> int m < p + n})
       (s1\<lparr>dbl := (dbl s1)(c a := ys1)\<rparr>) (s2\<lparr>dbl := (dbl s2)(c a := ys2)\<rparr>)"
      using assms(1) f1(1) f2(1) by (simp add: agree_on_def)
    then show ?thesis using Some y2 by (simp add: fillArrayD_def)
  qed
qed

lemma row_set:
  assumes "0 \<le> KM a"
  shows "{m. int u * KM a \<le> int m \<and> int m < int u * KM a + KM a} = {u * nat (KM a)..<Suc u * nat (KM a)}"
proof -
  have e: "int (u * nat (KM a)) = int u * KM a" "int (Suc u * nat (KM a)) = int u * KM a + KM a"
    using assms by (simp_all add: algebra_simps)
  have "{m. int (u * nat (KM a)) \<le> int m \<and> int m < int (Suc u * nat (KM a))} =
      {u * nat (KM a)..<Suc u * nat (KM a)}"
    unfolding of_nat_le_iff of_nat_less_iff by auto
  then show ?thesis unfolding e .
qed

lemma rows_Cons: "rows a (u # us) = {u * nat (KM a)..<Suc u * nat (KM a)} \<union> rows a us"
  by (simp add: rows_def)

lemma userStats_sim:
  assumes "agree_on a A s1 s2" "c a \<noteq> d a" "c a \<noteq> resids a" "0 \<le> KM a"
  shows "rel_option (\<lambda>(t1, n1) (t2, n2). agree_on a (A \<union> rows a [u]) t1 t2 \<and> n1 = n2)
     (userStats a ue t u (s1, counts)) (userStats a ue t u (s2, counts))"
proof -
  have pos: "0 \<le> int u * KM a" using assms(4) by simp
  have r: "A \<union> {m. int u * KM a \<le> int m \<and> int m < int u * KM a + KM a} = A \<union> rows a [u]"
    by (simp add: row_set[OF assms(4)] rows_def)
  note f = fillArrayD_sim[OF assms(1) pos, of "KM a" 0, unfolded r]
  show ?thesis
    unfolding userStats_def prod.case Let_def
    by (intro rel_option_bindI[OF f] rel_option_bindI[where R = "(=)"])
      (auto simp: option.rel_eq intro!: sufficientStats_sim assms(2,3))
qed

lemma userIter_sim:
  assumes "agree_on a A s1 s2" "c a \<noteq> d a" "c a \<noteq> resids a" "0 \<le> KM a"
  shows "rel_option (\<lambda>(t1, n1) (t2, n2). agree_on a (A \<union> rows a [u]) t1 t2 \<and> n1 = n2)
     (userIter a ue t u (s1, counts)) (userIter a ue t u (s2, counts))"
proof -
  have idx: "\<forall>i\<in>set [0..<nat (KM a)]. nat (int u * KM a + int i) \<in> A \<union> rows a [u]"
  proof
    fix i assume "i \<in> set [0..<nat (KM a)]"
    then have i: "i < nat (KM a)" by simp
    have "nat (int u * KM a + int i) = u * nat (KM a) + i"
      using assms(4) by (simp add: nat_add_distrib nat_mult_distrib)
    then show "nat (int u * KM a + int i) \<in> A \<union> rows a [u]"
      using i by (simp add: rows_def)
  qed
  show ?thesis
    unfolding userIter_def prod.case
  proof (rule rel_option_bindI[OF userStats_sim[OF assms]])
    fix p1 p2 :: "store \<times> int list"
    assume "(\<lambda>(t1, n1) (t2, n2). agree_on a (A \<union> rows a [u]) t1 t2 \<and> n1 = n2) p1 p2"
    then obtain t1 t2 n where p: "p1 = (t1, n)" "p2 = (t2, n)"
      and ag: "agree_on a (A \<union> rows a [u]) t1 t2"
      by (cases p1; cases p2) auto
    show "rel_option (\<lambda>(t1, n1) (t2, n2). agree_on a (A \<union> rows a [u]) t1 t2 \<and> n1 = n2)
        (case p1 of (s2, buf) \<Rightarrow>
           sampleNew a t (int u * KM a) buf [0..<nat (KM a)] s2 \<bind> (\<lambda>s3. Some (s3, counts[t := buf])))
        (case p2 of (s2, buf) \<Rightarrow>
           sampleNew a t (int u * KM a) buf [0..<nat (KM a)] s2 \<bind> (\<lambda>s3. Some (s3, counts[t := buf])))"
      unfolding p prod.case
      by (rule rel_option_bindI[OF sampleNew_sim[OF ag idx]]) simp
  qed
qed

lemma userLoop_sim:
  assumes "agree_on a A s1 s2" "c a \<noteq> d a" "c a \<noteq> resids a" "0 \<le> KM a"
  shows "rel_option (\<lambda>(t1, n1) (t2, n2). agree_on a (A \<union> rows a us) t1 t2 \<and> n1 = n2)
     (userLoop a ue sched us (s1, counts)) (userLoop a ue sched us (s2, counts))"
  using assms(1)
proof (induction us arbitrary: A s1 s2 counts)
  case Nil
  then show ?case by (simp add: rows_def)
next
  case (Cons u us)
  show ?case
    unfolding userLoop.simps
  proof (rule rel_option_bindI[OF userIter_sim[OF Cons.prems assms(2-4)]])
    fix p1 p2 :: "store \<times> int list list"
    assume "(\<lambda>(t1, n1) (t2, n2). agree_on a (A \<union> rows a [u]) t1 t2 \<and> n1 = n2) p1 p2"
    then obtain t1 t2 n where p: "p1 = (t1, n)" "p2 = (t2, n)"
      and ag: "agree_on a (A \<union> rows a [u]) t1 t2"
      by (cases p1; cases p2) auto
    have "A \<union> rows a [u] \<union> rows a us = A \<union> rows a (u # us)"
      by (auto simp: rows_def)
    with Cons.IH[OF ag, of n]
    show "rel_option (\<lambda>(t1, n1) (t2, n2). agree_on a (A \<union> rows a (u # us)) t1 t2 \<and> n1 = n2)
        (userLoop a ue sched us p1) (userLoop a ue sched us p2)"
      by (simp add: p)
  qed
qed

lemma sampleOffsets_sim:
  assumes "agree_on a A s1 s2" "c a \<noteq> d a" "c a \<noteq> resids a"
  shows "rel_option (agree_on a (A \<union> rows a [0..<nat (numUsers a)]))
     (sampleOffsets pf sched a s1) (sampleOffsets pf sched a s2)"
proof (cases "KM a < 0")
  case True
  then show ?thesis by (simp add: sampleOffsets_def mxMalloc_counts_def)
next
  case False
  then have km: "0 \<le> KM a" by simp
  have j: "jag s1 = jag s2" using assms(1) by (simp add: agree_on_def)
  show ?thesis
  proof (cases "unpackJagged (jag s2 (exampsByUser a)) (numUsers a)")
    case None
    then show ?thesis by (simp add: sampleOffsets_def j)
  next
    case (Some ue)
    obtain counts where mc: "mxMalloc_counts pf (KM a) = Some counts"
      using False by (simp add: mxMalloc_counts_def)
    note sim = userLoop_sim[OF assms km, of "[0..<nat (numUsers a)]" ue sched counts]
    show ?thesis
      unfolding sampleOffsets_def j Some mc
      by simp (rule rel_option_bindI[OF sim], auto)
  qed
qed

lemma in_rows:
  assumes "p < n" "i < nat (KM a)"
  shows "p * nat (KM a) + i \<in> rows a [0..<n]"
  using assms by (auto simp: rows_def intro!: bexI[of _ p])

lemma rows_cover:
  assumes "m < n * nat (KM a)"
  shows "m \<in> rows a [0..<n]"
proof -
  from assms have k: "0 < nat (KM a)" by (cases "nat (KM a)") auto
  have "m div nat (KM a) < n" using assms k by (simp add: less_mult_imp_div_less)
  moreover have "m = (m div nat (KM a)) * nat (KM a) + m mod nat (KM a)" by simp
  moreover have "m mod nat (KM a) < nat (KM a)" using k by simp
  ultimately show ?thesis using in_rows by metis
qed


section \<open>The small data sets, run\<close>

lemma upt_0_2: "[0..<2] = [0, Suc 0]"
  by (simp add: upt_conv_Cons numeral_2_eq_2)

lemma upt_0_3: "[0..<3] = [0, Suc 0, 2]"
  by (simp add: upt_conv_Cons numeral_3_eq_3 numeral_2_eq_2)

lemma replicate_2: "replicate 2 x = [x, x]"
  by (simp add: numeral_2_eq_2)

lemma replicate_3: "replicate 3 x = [x, x, x]"
  by (simp add: numeral_3_eq_3)

lemma sqrt_25: "sqrt 25 = 5"
  using real_sqrt_abs[of 5] by simp

lemma sqrt_49: "sqrt 49 = 7"
  using real_sqrt_abs[of 7] by simp

lemma fx_malloc:
  "mxMalloc_counts fx_pf 2 = Some [[7, 7, 7, 7], [7, 7, 7, 7]]"
  "mxMalloc_counts fx_pf 3 = Some gx_counts"
  by (simp_all add: mxMalloc_counts_def fx_pf_def gx_counts_def upt_conv_Cons eval_nat_numeral)

lemmas run_simps = sampleOffsets_def unpackJagged_def fx_malloc userIter_def userStats_def
  fillArrayD_def fillArrayI_def fillArray_def rd_def wr_def wr_dbl_def gsl_ran_gaussian_def ratio_def
  real_sqrt_divide sqrt_25 sqrt_49 upt_0_2 upt_0_3 replicate_2 replicate_3 fx_sched_def

lemmas fx_defs = fx_store_def fx_store0_def fx_after_user_def fx_after_both_def fx_after_item_def
  fx_after_stats_def fx_after_iter_def

lemmas gx_defs = gx_store_def gx_params_def gx_counts_def gx_after_stats_def gx_after_iter_def
  gx_after_def

lemma fx_userParams:
  "userParams fx_model =
     \<lparr>users = Arr_users, items = Arr_items, exampsByUser = Arr_exampsByUser,
      KU = 2, KM = 2, numUsers = 2, invSigmaSqd = 3, invSigmaSqd0 = 1, c0 = 5,
      c = Arr_c, d = Arr_d, zU = Arr_zU, zM = Arr_zM, resids = Arr_resids\<rparr>"
  by (simp add: userParams_def fx_model_def double_to_int_def)

lemma fx_itemParams:
  "itemParams fx_model =
     \<lparr>users = Arr_items, items = Arr_users, exampsByUser = Arr_exampsByItem,
      KU = 2, KM = 2, numUsers = 2, invSigmaSqd = 3, invSigmaSqd0 = 1, c0 = -1,
      c = Arr_d, d = Arr_c, zU = Arr_zM, zM = Arr_zU, resids = Arr_resids\<rparr>"
  by (simp add: itemParams_def fx_model_def double_to_int_def)

lemma fx_K: "KM (userParams fx_model) = 2" "KU (userParams fx_model) = 2"
  by (simp_all add: fx_userParams)

lemma fx_userStats:
  "userStats (userParams fx_model) [[1, 2], [3]] 1 1 (fx_store, [[7, 7, 7, 7], [7, 7, 7, 7]]) =
     Some (fx_after_stats, [0, 1, 7, 7])"
  by (simp add: fx_userParams fx_defs run_simps)

lemma fx_userIter:
  "userIter (userParams fx_model) [[1, 2], [3]] 1 1 (fx_store, [[7, 7, 7, 7], [7, 7, 7, 7]]) =
     Some (fx_after_iter, [[7, 7, 7, 7], [0, 1, 7, 7]])"
  by (simp add: fx_userParams fx_defs run_simps)

lemma fx_user_run:
  "sampleOffsets fx_pf fx_sched (userParams fx_model) fx_store = Some fx_after_user"
  by (simp add: fx_userParams fx_defs run_simps)

lemma fx_item_run:
  "sampleOffsets fx_pf fx_sched (itemParams fx_model) fx_after_user = Some fx_after_both"
  by (simp add: fx_itemParams fx_defs run_simps)

lemma fx_item_first:
  "sampleOffsets fx_pf fx_sched (itemParams fx_model) fx_store = Some fx_after_item"
  by (simp add: fx_itemParams fx_defs run_simps)

lemma fx_mex_both:
  "mexFunction fx_pf fx_sched fx_sched fx_model None fx_store = Some fx_after_both"
  by (simp add: mexFunction_unfold fx_K sampFlag_def fx_user_run fx_item_run)

lemma fx_mex_user:
  "mexFunction fx_pf fx_sched fx_sched fx_model (Some [True, False]) fx_store = Some fx_after_user"
  by (simp add: mexFunction_unfold fx_K sampFlag_def rd_def fx_user_run)

lemma fx_mex_item:
  "mexFunction fx_pf fx_sched fx_sched fx_model (Some [False, True]) fx_store = Some fx_after_item"
  by (simp add: mexFunction_unfold fx_K sampFlag_def rd_def fx_item_first)

lemma fx_sizes:
  "length [0, 0, 0, 0 :: real] = length (dbl fx_store (c (userParams fx_model)))"
  "length (dbl fx_store (c (userParams fx_model))) =
     nat (numUsers (userParams fx_model)) * nat (KM (userParams fx_model))"
  by (simp_all add: fx_userParams fx_store_def)

lemma fx_user_hyps:
  "c (userParams fx_model) \<noteq> d (userParams fx_model)"
  "c (userParams fx_model) \<noteq> resids (userParams fx_model)"
  "1 < nat (numUsers (userParams fx_model))"
  "1 < nat (KM (userParams fx_model))" "0 < nat (KM (userParams fx_model))"
  "invSigmaSqd0 (userParams fx_model) \<noteq> 0"
  by (simp_all add: fx_userParams)

lemma fx_draws:
  "draw_of fx_sched (userParams fx_model) fx_store 1 1 = 4"
  "draw_of fx_sched (userParams fx_model) fx_store 1 0 = 3"
  by (simp_all add: draw_of_def thread_iters_def fx_sched_def fx_store_def fx_userParams)

lemma fx_stats:
  "spec_count fx_store (userParams fx_model) (jag fx_store (exampsByUser (userParams fx_model)) ! 1) 1 = 1"
  "spec_sum fx_store (userParams fx_model) (jag fx_store (exampsByUser (userParams fx_model)) ! 1) 1 = 3"
  "spec_count fx_store (userParams fx_model) (jag fx_store (exampsByUser (userParams fx_model)) ! 1) 0 = 0"
  by (simp_all add: spec_count_def spec_sum_def spec_slot_def spec_contribution_def fx_store_def
      fx_userParams)

lemma fx_enabled:
  "spec_user_enabled fx_model None" "spec_item_enabled fx_model None"
  "\<not> spec_user_enabled fx_model (Some [False, True])"
  "\<not> spec_item_enabled fx_model (Some [True, False])"
  by (simp_all add: spec_user_enabled_def spec_item_enabled_def spec_flag_def fx_K)

lemma fx0_A: "fx0_user_then_item = Some [- (7/16), - 1, - (5/8), 5/16]"
  by (simp add: fx0_user_then_item_def mexFunction_unfold fx_K sampFlag_def rd_def
      fx_userParams fx_itemParams fx_defs run_simps)

lemma fx0_B: "fx0_item_then_user = Some [- (25/4), - 1, - (19/4), - (11/2)]"
  by (simp add: fx0_item_then_user_def mexFunction_unfold fx_K sampFlag_def rd_def
      fx_userParams fx_itemParams fx_defs run_simps)

lemma gx_userStats:
  "userStats gx_params (jag gx_store Arr_exampsByUser) 0 0 (gx_store, gx_counts) =
     Some (gx_after_stats, [2, 0, 1, 7, 7, 7])"
  by (simp add: gx_defs run_simps)

lemma gx_run: "sampleOffsets fx_pf fx_sched gx_params gx_store = Some gx_after"
  by (simp add: gx_defs run_simps)

lemma gx_userIter:
  "userIter gx_params (jag gx_store Arr_exampsByUser) 0 0 (gx_store, gx_counts) =
     Some (gx_after_iter, [[2, 0, 1, 7, 7, 7], [7, 7, 7, 7, 7, 7]])"
  by (simp add: gx_defs run_simps)

lemma gx_hyps:
  "c gx_params \<noteq> d gx_params" "c gx_params \<noteq> resids gx_params"
  "invSigmaSqd0 gx_params \<noteq> 0" "0 \<le> KM gx_params" "KU gx_params = 0"
  "0 < nat (KM gx_params)" "1 < nat (KM gx_params)" "2 < nat (KM gx_params)"
  "1 < nat (numUsers gx_params)" "2 < nat (numUsers gx_params)"
  by (simp_all add: gx_params_def)

lemma gx_topics:
  "topics_ok gx_params gx_store [1, 2, 3]" "topics_ok gx_params gx_store []"
  "topics_ok gx_params gx_store [4]"
  by (simp_all add: topics_ok_def stat_ok_def spec_slot_def gx_store_def gx_params_def)

lemma gx_stats_wf:
  "stats_wf gx_params (jag gx_store Arr_exampsByUser) 0 0 gx_store gx_counts"
  using gx_topics by (simp add: stats_wf_def gx_store_def gx_params_def gx_counts_def)

lemma gx_call_wf: "call_wf fx_pf fx_sched gx_params gx_store"
  using gx_topics
  by (simp add: call_wf_def gx_store_def gx_params_def fx_pf_def fx_sched_def upt_0_3)

lemma fx_topics:
  "topics_ok (userParams fx_model) fx_store [1, 2]" "topics_ok (userParams fx_model) fx_store [3]"
  by (simp_all add: topics_ok_def stat_ok_def spec_slot_def fx_store_def fx_userParams)

lemma fx_stats_wf:
  "stats_wf (userParams fx_model) [[1, 2], [3]] 1 1 fx_store [[7, 7, 7, 7], [7, 7, 7, 7]]"
  using fx_topics by (simp add: stats_wf_def fx_store_def fx_userParams)

lemma fx_call_wf: "call_wf fx_pf fx_sched (userParams fx_model) fx_store"
  using fx_topics
  by (simp add: call_wf_def fx_store_def fx_userParams fx_pf_def fx_sched_def upt_0_2)

lemma snth_SCons_numeral: "(x ## s) !! numeral k = s !! pred_numeral k"
  by (simp add: numeral_eq_Suc)

lemma gx_draws:
  "draw_of fx_sched gx_params gx_store 2 1 = 5"
  "draw_of fx_sched gx_params gx_store 1 2 = - 3"
  by (simp_all add: draw_of_def thread_iters_def fx_sched_def gx_store_def gx_params_def upt_0_2
      snth_SCons_numeral)

lemma gx_stats:
  "spec_count gx_store gx_params (jag gx_store (exampsByUser gx_params) ! 2) 1 = 1"
  "spec_sum gx_store gx_params (jag gx_store (exampsByUser gx_params) ! 2) 1 = 8"
  "jag gx_store (exampsByUser gx_params) ! 1 = []"
  "spec_count gx_store gx_params (jag gx_store (exampsByUser gx_params) ! 1) 2 = 0"
  by (simp_all add: spec_count_def spec_sum_def spec_slot_def spec_contribution_def gx_store_def
      gx_params_def)

lemma gx_sums:
  "(\<Sum>x\<leftarrow>filter (\<lambda>x. spec_slot gx_store gx_params x = int 0) (jag gx_store Arr_exampsByUser ! 0).
      spec_contribution gx_store gx_params x) = 5"
  "(\<Sum>x\<leftarrow>filter (\<lambda>x. spec_slot fx_store (userParams fx_model) x = int 1) ([[1, 2], [3]] ! 1).
      spec_contribution fx_store (userParams fx_model) x) = 3"
  by (simp_all add: spec_slot_def spec_contribution_def gx_store_def gx_params_def fx_store_def
      fx_userParams)


section \<open>The claims\<close>

subsection \<open>The sufficient statistics\<close>

text \<open>
  C1. In \<^verbatim>\<open>sampleOffsets\<close>, each interaction of the adjacency list of a primary entity
  \<open>p\<close> adds its contribution to the slot of its secondary-side topic \<open>zM[e]\<close>, and the
  contribution is \<open>resids[e] - d[(items[e]-1)*KU + (zU[e]-1)]\<close> when \<open>KU > 0\<close> and
  \<open>resids[e]\<close> otherwise: on an input that respects the contract, the accumulation
  loop of \<open>p\<close> returns, and then every slot \<open>i\<close> of the row of \<open>p\<close> holds the sum of
  the contributions of exactly the interactions whose topic is \<open>i\<close>. The arrays \<open>d\<close>
  and \<open>resids\<close> are not the array \<open>c\<close>.
\<close>

theorem accumulate_by_secondary_topic:
  assumes "stats_wf a ue t p s counts" and "c a \<noteq> d a" "c a \<noteq> resids a"
  shows "\<exists>s2 buf. userStats a ue t p (s, counts) = Some (s2, buf) \<and>
     (\<forall>i<nat (KM a). dbl s2 (c a) ! (p * nat (KM a) + i) =
        (\<Sum>x\<leftarrow>filter (\<lambda>x. spec_slot s a x = int i) (ue ! p). spec_contribution s a x))"
proof -
  from assms(1) have km: "0 \<le> KM a" by (simp add: stats_wf_def)
  from userStats_ok[OF assms(1)] obtain s2 buf where
    r: "userStats a ue t p (s, counts) = Some (s2, buf)" by force
  have "dbl s2 (c a) ! (p * nat (KM a) + i) =
        (\<Sum>x\<leftarrow>filter (\<lambda>x. spec_slot s a x = int i) (ue ! p). spec_contribution s a x)"
    if "i < nat (KM a)" for i
    using userStats_values[OF r km assms(2,3) that] by (simp add: spec_sum_def)
  with r show ?thesis by blast
qed

theorem accumulate_by_secondary_topic_witness:
  "stats_wf gx_params (jag gx_store Arr_exampsByUser) 0 0 gx_store gx_counts \<and>
   c gx_params \<noteq> d gx_params \<and> c gx_params \<noteq> resids gx_params \<and> KU gx_params = 0 \<and>
   userStats gx_params (jag gx_store Arr_exampsByUser) 0 0 (gx_store, gx_counts) =
     Some (gx_after_stats, [2, 0, 1, 7, 7, 7]) \<and>
   dbl gx_after_stats (c gx_params) ! (0 * nat (KM gx_params) + 0) =
     (\<Sum>x\<leftarrow>filter (\<lambda>x. spec_slot gx_store gx_params x = int 0) (jag gx_store Arr_exampsByUser ! 0).
        spec_contribution gx_store gx_params x) \<and>
   (\<Sum>x\<leftarrow>filter (\<lambda>x. spec_slot gx_store gx_params x = int 0) (jag gx_store Arr_exampsByUser ! 0).
        spec_contribution gx_store gx_params x) = 5 \<and>
   stats_wf (userParams fx_model) [[1, 2], [3]] 1 1 fx_store [[7, 7, 7, 7], [7, 7, 7, 7]] \<and>
   0 < KU (userParams fx_model) \<and>
   userStats (userParams fx_model) [[1, 2], [3]] 1 1 (fx_store, [[7, 7, 7, 7], [7, 7, 7, 7]]) =
     Some (fx_after_stats, [0, 1, 7, 7]) \<and>
   dbl fx_after_stats (c (userParams fx_model)) ! (1 * nat (KM (userParams fx_model)) + 1) =
     (\<Sum>x\<leftarrow>filter (\<lambda>x. spec_slot fx_store (userParams fx_model) x = int 1) ([[1, 2], [3]] ! 1).
        spec_contribution fx_store (userParams fx_model) x) \<and>
   (\<Sum>x\<leftarrow>filter (\<lambda>x. spec_slot fx_store (userParams fx_model) x = int 1) ([[1, 2], [3]] ! 1).
        spec_contribution fx_store (userParams fx_model) x) = 3"
proof -
  from accumulate_by_secondary_topic[OF gx_stats_wf gx_hyps(1,2)] obtain s2 buf where
    r: "userStats gx_params (jag gx_store Arr_exampsByUser) 0 0 (gx_store, gx_counts) = Some (s2, buf)"
    and v: "\<forall>i<nat (KM gx_params). dbl s2 (c gx_params) ! (0 * nat (KM gx_params) + i) =
      (\<Sum>x\<leftarrow>filter (\<lambda>x. spec_slot gx_store gx_params x = int i) (jag gx_store Arr_exampsByUser ! 0).
        spec_contribution gx_store gx_params x)"
    by blast
  from r gx_userStats have e: "s2 = gx_after_stats" by simp
  have g: "dbl gx_after_stats (c gx_params) ! (0 * nat (KM gx_params) + 0) =
     (\<Sum>x\<leftarrow>filter (\<lambda>x. spec_slot gx_store gx_params x = int 0) (jag gx_store Arr_exampsByUser ! 0).
        spec_contribution gx_store gx_params x)"
    using v[rule_format, OF gx_hyps(6)] unfolding e .
  from accumulate_by_secondary_topic[OF fx_stats_wf fx_user_hyps(1,2)] obtain s2' buf' where
    r': "userStats (userParams fx_model) [[1, 2], [3]] 1 1 (fx_store, [[7, 7, 7, 7], [7, 7, 7, 7]]) =
      Some (s2', buf')"
    and v': "\<forall>i<nat (KM (userParams fx_model)).
      dbl s2' (c (userParams fx_model)) ! (1 * nat (KM (userParams fx_model)) + i) =
      (\<Sum>x\<leftarrow>filter (\<lambda>x. spec_slot fx_store (userParams fx_model) x = int i) ([[1, 2], [3]] ! 1).
        spec_contribution fx_store (userParams fx_model) x)"
    by blast
  from r' fx_userStats have e': "s2' = fx_after_stats" by simp
  have f: "dbl fx_after_stats (c (userParams fx_model)) ! (1 * nat (KM (userParams fx_model)) + 1) =
     (\<Sum>x\<leftarrow>filter (\<lambda>x. spec_slot fx_store (userParams fx_model) x = int 1) ([[1, 2], [3]] ! 1).
        spec_contribution fx_store (userParams fx_model) x)"
    using v'[rule_format, OF fx_user_hyps(4)] unfolding e' .
  have k: "0 < KU (userParams fx_model)" by (simp add: fx_K)
  show ?thesis
    by (intro conjI gx_stats_wf gx_hyps(1,2,5) gx_userStats g gx_sums fx_stats_wf k fx_userStats f)
qed

text \<open>
  C8. On an input that respects the contract (topic ids in \<open>[1, KM]\<close> among it), the
  accumulation loop of a primary entity returns, and the counts of the topics
  \<open>0, \<dots>, KM - 1\<close> then add up to the length of the adjacency list of the entity: every
  interaction increments exactly one of these counters.
\<close>

theorem counts_sum_to_adjacency_length:
  assumes "stats_wf a ue t p s counts"
  shows "\<exists>s2 buf. userStats a ue t p (s, counts) = Some (s2, buf) \<and>
     (\<Sum>i = 0..<nat (KM a). buf ! i) = int (length (ue ! p))"
proof -
  from assms have km: "0 \<le> KM a" and tp: "topics_ok a s (ue ! p)"
    by (simp_all add: stats_wf_def)
  from userStats_ok[OF assms] obtain s2 buf where
    r: "userStats a ue t p (s, counts) = Some (s2, buf)" by force
  have "(\<Sum>i = 0..<nat (KM a). buf ! i) = (\<Sum>i = 0..<nat (KM a). spec_count s a (ue ! p) i)"
    by (intro sum.cong refl) (simp add: userStats_counts[OF r km])
  also have "\<dots> = int (length (ue ! p))"
    using tp km by (intro spec_count_total) (auto simp: topics_ok_def list_all_iff)
  finally show ?thesis using r by blast
qed

theorem counts_sum_to_adjacency_length_witness:
  "stats_wf gx_params (jag gx_store Arr_exampsByUser) 0 0 gx_store gx_counts \<and>
   userStats gx_params (jag gx_store Arr_exampsByUser) 0 0 (gx_store, gx_counts) =
     Some (gx_after_stats, [2, 0, 1, 7, 7, 7]) \<and>
   (\<Sum>i = 0..<nat (KM gx_params). [2, 0, 1, 7, 7, 7 :: int] ! i) =
     int (length (jag gx_store Arr_exampsByUser ! 0)) \<and>
   length (jag gx_store Arr_exampsByUser ! 0) = 3"
proof -
  from counts_sum_to_adjacency_length[OF gx_stats_wf] obtain s2 buf where
    r: "userStats gx_params (jag gx_store Arr_exampsByUser) 0 0 (gx_store, gx_counts) = Some (s2, buf)"
    and v: "(\<Sum>i = 0..<nat (KM gx_params). buf ! i) = int (length (jag gx_store Arr_exampsByUser ! 0))"
    by blast
  from r gx_userStats have e: "buf = [2, 0, 1, 7, 7, 7]" by simp
  have s: "(\<Sum>i = 0..<nat (KM gx_params). [2, 0, 1, 7, 7, 7 :: int] ! i) =
     int (length (jag gx_store Arr_exampsByUser ! 0))"
    using v unfolding e .
  have l: "length (jag gx_store Arr_exampsByUser ! 0) = 3" by (simp add: gx_store_def)
  show ?thesis by (intro conjI gx_stats_wf gx_userStats s l)
qed

subsection \<open>The new offsets\<close>

text \<open>
  C2. On an input that respects the contract, \<^verbatim>\<open>sampleOffsets\<close> returns, and for every
  primary entity \<open>p\<close> and every topic \<open>i\<close> the offset it has written is
  \<open>mean + sqrt variance * g\<close> with
  \<open>variance = 1 / (invSigmaSqd0 + count[i] * invSigmaSqd)\<close> and
  \<open>mean = variance * (c0 * invSigmaSqd0 + sum[i] * invSigmaSqd)\<close>, where \<open>count[i]\<close> and
  \<open>sum[i]\<close> are the statistics of the adjacency list of \<open>p\<close> and \<open>g\<close> is the standard
  Gaussian deviate that the generator of the thread of \<open>p\<close> delivers for this offset.
\<close>

theorem offset_is_posterior_draw:
  assumes "call_wf pf sched a s" and "c a \<noteq> d a" "c a \<noteq> resids a"
  shows "\<exists>s'. sampleOffsets pf sched a s = Some s' \<and>
     (\<forall>p<nat (numUsers a). \<forall>i<nat (KM a).
        dbl s' (c a) ! (p * nat (KM a) + i) =
          spec_offset (c0 a) (invSigmaSqd0 a) (invSigmaSqd a)
            (spec_count s a (jag s (exampsByUser a) ! p) i)
            (spec_sum s a (jag s (exampsByUser a) ! p) i)
            (draw_of sched a s p i))"
proof -
  from sampleOffsets_ok[OF assms(1)] obtain s' where
    r: "sampleOffsets pf sched a s = Some s'" by blast
  from sampleOffsets_values[OF r assms(2,3)] r show ?thesis by blast
qed

theorem offset_is_posterior_draw_witness:
  "call_wf fx_pf fx_sched gx_params gx_store \<and>
   c gx_params \<noteq> d gx_params \<and> c gx_params \<noteq> resids gx_params \<and>
   2 < nat (numUsers gx_params) \<and> 1 < nat (KM gx_params) \<and>
   sampleOffsets fx_pf fx_sched gx_params gx_store = Some gx_after \<and>
   dbl gx_after (c gx_params) ! (2 * nat (KM gx_params) + 1) =
     spec_offset (c0 gx_params) (invSigmaSqd0 gx_params) (invSigmaSqd gx_params) 1 8 5"
proof -
  from offset_is_posterior_draw[OF gx_call_wf gx_hyps(1,2)] obtain s' where
    r: "sampleOffsets fx_pf fx_sched gx_params gx_store = Some s'"
    and a: "\<forall>p<nat (numUsers gx_params). \<forall>i<nat (KM gx_params).
        dbl s' (c gx_params) ! (p * nat (KM gx_params) + i) =
          spec_offset (c0 gx_params) (invSigmaSqd0 gx_params) (invSigmaSqd gx_params)
            (spec_count gx_store gx_params (jag gx_store (exampsByUser gx_params) ! p) i)
            (spec_sum gx_store gx_params (jag gx_store (exampsByUser gx_params) ! p) i)
            (draw_of fx_sched gx_params gx_store p i)"
    by blast
  from r gx_run have e: "s' = gx_after" by simp
  have "dbl gx_after (c gx_params) ! (2 * nat (KM gx_params) + 1) =
     spec_offset (c0 gx_params) (invSigmaSqd0 gx_params) (invSigmaSqd gx_params)
       (spec_count gx_store gx_params (jag gx_store (exampsByUser gx_params) ! 2) 1)
       (spec_sum gx_store gx_params (jag gx_store (exampsByUser gx_params) ! 2) 1)
       (draw_of fx_sched gx_params gx_store 2 1)"
    using a[rule_format, OF gx_hyps(10) gx_hyps(7)] unfolding e .
  then have v: "dbl gx_after (c gx_params) ! (2 * nat (KM gx_params) + 1) =
     spec_offset (c0 gx_params) (invSigmaSqd0 gx_params) (invSigmaSqd gx_params) 1 8 5"
    unfolding gx_stats gx_draws .
  show ?thesis
    by (intro conjI gx_call_wf gx_hyps(1,2,7,10) gx_run v)
qed

text \<open>
  C3. On an input that respects the contract, \<^verbatim>\<open>sampleOffsets\<close> returns, and for every
  topic \<open>i\<close> of a primary entity \<open>p\<close> whose count is 0 (every topic, when the adjacency
  list of \<open>p\<close> is empty) the offset it has written is
  \<open>c0 + sqrt (1 / invSigmaSqd0) * g\<close>, a draw from the prior. The prior precision
  \<open>invSigmaSqd0\<close> is not 0 (the spec takes the variances to be positive).
\<close>

theorem empty_topic_is_prior_draw:
  assumes "call_wf pf sched a s" and "c a \<noteq> d a" "c a \<noteq> resids a"
    and "invSigmaSqd0 a \<noteq> 0"
  shows "\<exists>s'. sampleOffsets pf sched a s = Some s' \<and>
     (\<forall>p<nat (numUsers a). \<forall>i<nat (KM a).
        spec_count s a (jag s (exampsByUser a) ! p) i = 0 \<longrightarrow>
        dbl s' (c a) ! (p * nat (KM a) + i) =
          c0 a + sqrt (1 / invSigmaSqd0 a) * draw_of sched a s p i) \<and>
     (\<forall>p<nat (numUsers a). jag s (exampsByUser a) ! p = [] \<longrightarrow>
        (\<forall>i<nat (KM a). dbl s' (c a) ! (p * nat (KM a) + i) =
          c0 a + sqrt (1 / invSigmaSqd0 a) * draw_of sched a s p i))"
proof -
  from sampleOffsets_ok[OF assms(1)] obtain s' where
    r: "sampleOffsets pf sched a s = Some s'" by blast
  have prior: "dbl s' (c a) ! (p * nat (KM a) + i) =
          c0 a + sqrt (1 / invSigmaSqd0 a) * draw_of sched a s p i"
    if "p < nat (numUsers a)" "i < nat (KM a)"
      and "spec_count s a (jag s (exampsByUser a) ! p) i = 0" for p i
    using sampleOffsets_values[OF r assms(2,3) that(1,2)] that(3) assms(4)
    by (simp add: spec_count_0_sum spec_offset_def)
  have empty: "dbl s' (c a) ! (p * nat (KM a) + i) =
          c0 a + sqrt (1 / invSigmaSqd0 a) * draw_of sched a s p i"
    if "p < nat (numUsers a)" "jag s (exampsByUser a) ! p = []" "i < nat (KM a)" for p i
  proof -
    have "spec_count s a (jag s (exampsByUser a) ! p) i = 0"
      by (simp add: that(2) spec_count_def)
    from prior[OF that(1,3) this] show ?thesis .
  qed
  show ?thesis
    by (intro exI[of _ s'] conjI allI impI r prior empty)
qed

theorem empty_topic_is_prior_draw_witness:
  "call_wf fx_pf fx_sched gx_params gx_store \<and>
   c gx_params \<noteq> d gx_params \<and> c gx_params \<noteq> resids gx_params \<and>
   invSigmaSqd0 gx_params \<noteq> 0 \<and>
   1 < nat (numUsers gx_params) \<and> 2 < nat (KM gx_params) \<and>
   jag gx_store (exampsByUser gx_params) ! 1 = [] \<and>
   sampleOffsets fx_pf fx_sched gx_params gx_store = Some gx_after \<and>
   dbl gx_after (c gx_params) ! (1 * nat (KM gx_params) + 2) =
     c0 gx_params + sqrt (1 / invSigmaSqd0 gx_params) * (- 3)"
proof -
  from empty_topic_is_prior_draw[OF gx_call_wf gx_hyps(1,2,3)] obtain s' where
    r: "sampleOffsets fx_pf fx_sched gx_params gx_store = Some s'"
    and a: "\<forall>p<nat (numUsers gx_params). jag gx_store (exampsByUser gx_params) ! p = [] \<longrightarrow>
        (\<forall>i<nat (KM gx_params). dbl s' (c gx_params) ! (p * nat (KM gx_params) + i) =
          c0 gx_params + sqrt (1 / invSigmaSqd0 gx_params) * draw_of fx_sched gx_params gx_store p i)"
    by blast
  from r gx_run have e: "s' = gx_after" by simp
  have "dbl gx_after (c gx_params) ! (1 * nat (KM gx_params) + 2) =
     c0 gx_params + sqrt (1 / invSigmaSqd0 gx_params) * draw_of fx_sched gx_params gx_store 1 2"
    using a[rule_format, OF gx_hyps(9) gx_stats(3) gx_hyps(8)] unfolding e .
  then have v: "dbl gx_after (c gx_params) ! (1 * nat (KM gx_params) + 2) =
     c0 gx_params + sqrt (1 / invSigmaSqd0 gx_params) * (- 3)"
    unfolding gx_draws .
  show ?thesis
    by (intro conjI gx_call_wf gx_hyps(1,2,3,8,9) gx_stats(3) gx_run v)
qed

subsection \<open>What a call leaves alone\<close>

text \<open>
  C7. Within one call of \<^verbatim>\<open>sampleOffsets\<close>, the update of the primary entity \<open>p\<close> (one
  iteration of the loop over \<open>u\<close>) changes no entry of \<open>c\<close> outside the row of \<open>p\<close>
  when the topic ids \<open>zM[e]\<close> of the interactions of \<open>p\<close> are in \<open>[1, KM]\<close>, and
  neither the update nor the whole call changes any other array of doubles (\<open>d\<close> and
  \<open>resids\<close> among them), the \<^verbatim>\<open>uint32\<close> arrays (\<open>zU\<close>, \<open>zM\<close>, the entity ids) or the
  adjacency lists. The counter blocks are any the update runs with: the range of the
  topic ids is a hypothesis, not a fault of the run.
\<close>

theorem update_writes_own_row_only:
  "(userIter a ue t p (s, counts) = Some (s3, counts') \<and> 0 \<le> KM a \<and>
      (\<forall>x\<in>set (ue ! p). 0 \<le> spec_slot s a x \<and> spec_slot s a x < KM a) \<longrightarrow>
      length (dbl s3 (c a)) = length (dbl s (c a)) \<and>
      (\<forall>m<length (dbl s (c a)). m < p * nat (KM a) \<or> Suc p * nat (KM a) \<le> m \<longrightarrow>
         dbl s3 (c a) ! m = dbl s (c a) ! m) \<and>
      (\<forall>q. q \<noteq> c a \<longrightarrow> dbl s3 q = dbl s q) \<and> u32 s3 = u32 s \<and> jag s3 = jag s) \<and>
   (sampleOffsets pf sched a s = Some s' \<longrightarrow>
      (\<forall>q. q \<noteq> c a \<longrightarrow> dbl s' q = dbl s q) \<and> u32 s' = u32 s \<and> jag s' = jag s)"
proof (intro conjI impI)
  assume h: "userIter a ue t p (s, counts) = Some (s3, counts') \<and> 0 \<le> KM a \<and>
      (\<forall>x\<in>set (ue ! p). 0 \<le> spec_slot s a x \<and> spec_slot s a x < KM a)"
  then have it: "userIter a ue t p (s, counts) = Some (s3, counts')" and km: "0 \<le> KM a"
    and rg: "\<forall>x\<in>set (ue ! p). spec_slot s a x < KM a" by simp_all
  note f = userIter_frame[OF it km]
  show "length (dbl s3 (c a)) = length (dbl s (c a))" "u32 s3 = u32 s" "jag s3 = jag s"
    using f by simp_all
  show "\<forall>q. q \<noteq> c a \<longrightarrow> dbl s3 q = dbl s q" using f(4) by simp
  show "\<forall>m<length (dbl s (c a)). m < p * nat (KM a) \<or> Suc p * nat (KM a) \<le> m \<longrightarrow>
         dbl s3 (c a) ! m = dbl s (c a) ! m"
    using f(8) userIter_row[OF it km rg] by blast
next
  assume r: "sampleOffsets pf sched a s = Some s'"
  note f = sampleOffsets_frame[OF r]
  show "u32 s' = u32 s" "jag s' = jag s" using f by simp_all
  show "\<forall>q. q \<noteq> c a \<longrightarrow> dbl s' q = dbl s q" using f(3) by simp
qed

theorem update_writes_own_row_only_witness:
  "userIter gx_params (jag gx_store Arr_exampsByUser) 0 0 (gx_store, gx_counts) =
      Some (gx_after_iter, [[2, 0, 1, 7, 7, 7], [7, 7, 7, 7, 7, 7]]) \<and>
   0 \<le> KM gx_params \<and>
   topics_ok gx_params gx_store (jag gx_store Arr_exampsByUser ! 0) \<and>
   3 < length (dbl gx_store (c gx_params)) \<and> Suc 0 * nat (KM gx_params) \<le> 3 \<and>
   dbl gx_after_iter (c gx_params) ! 3 = dbl gx_store (c gx_params) ! 3 \<and>
   sampleOffsets fx_pf fx_sched gx_params gx_store = Some gx_after \<and>
   Arr_resids \<noteq> c gx_params \<and>
   dbl gx_after Arr_resids = dbl gx_store Arr_resids"
proof -
  have tp: "topics_ok gx_params gx_store (jag gx_store Arr_exampsByUser ! 0)"
    using gx_topics(1) by (simp add: gx_store_def)
  then have rg: "\<forall>x\<in>set (jag gx_store Arr_exampsByUser ! 0).
      0 \<le> spec_slot gx_store gx_params x \<and> spec_slot gx_store gx_params x < KM gx_params"
    by (simp add: topics_ok_def list_all_iff)
  have m: "3 < length (dbl gx_store (c gx_params))" "Suc 0 * nat (KM gx_params) \<le> 3"
    by (simp_all add: gx_store_def gx_params_def)
  have q: "Arr_resids \<noteq> c gx_params"
    by (simp add: gx_params_def)
  note t = update_writes_own_row_only[of gx_params "jag gx_store Arr_exampsByUser" 0 0 gx_store
      gx_counts gx_after_iter "[[2, 0, 1, 7, 7, 7], [7, 7, 7, 7, 7, 7]]" fx_pf fx_sched gx_after]
  have h: "userIter gx_params (jag gx_store Arr_exampsByUser) 0 0 (gx_store, gx_counts) =
      Some (gx_after_iter, [[2, 0, 1, 7, 7, 7], [7, 7, 7, 7, 7, 7]]) \<and> 0 \<le> KM gx_params \<and>
      (\<forall>x\<in>set (jag gx_store Arr_exampsByUser ! 0).
         0 \<le> spec_slot gx_store gx_params x \<and> spec_slot gx_store gx_params x < KM gx_params)"
    by (intro conjI gx_userIter gx_hyps(4) rg)
  note t1 = t[THEN conjunct1, THEN mp, OF h, THEN conjunct2, THEN conjunct1, rule_format]
  have 1: "dbl gx_after_iter (c gx_params) ! 3 = dbl gx_store (c gx_params) ! 3"
    by (rule t1[OF m(1)]) (rule disjI2, rule m(2))
  note t2 = t[THEN conjunct2, THEN mp, OF gx_run, THEN conjunct1, rule_format]
  have 2: "dbl gx_after Arr_resids = dbl gx_store Arr_resids"
    by (rule t2[OF q])
  show ?thesis
    by (intro conjI gx_userIter gx_hyps(4) tp m 1 gx_run q 2)
qed

subsection \<open>The two phases of the driver\<close>

text \<open>
  C4. The driver runs the user phase (which rewrites \<open>c\<close> with prior mean \<open>c0\<close>) if and
  only if \<open>KM > 0\<close> and the flag array is absent or its first entry is true, and then the
  item phase (which rewrites \<open>d\<close> with prior mean \<open>d0\<close>) if and only if \<open>KU > 0\<close> and
  the flag array is absent or its second entry is true; without the flag array both
  phases are enabled. A flag array that is supplied has its two entries.
\<close>

theorem driver_gating:
  assumes "\<forall>fl. sampParams = Some fl \<longrightarrow> 2 \<le> length fl"
  shows "mexFunction pf sched1 sched2 m sampParams s =
         spec_runOffsetUpdate pf sched1 sched2 m sampParams s"
proof -
  from assms have "\<forall>fl. sampParams = Some fl \<longrightarrow> 0 < length fl"
    "\<forall>fl. sampParams = Some fl \<longrightarrow> 1 < length fl" by auto
  then have "sampFlag sampParams 0 = Some (spec_flag sampParams 0)"
    "sampFlag sampParams 1 = Some (spec_flag sampParams 1)"
    using sampFlag_present[of sampParams 0] sampFlag_present[of sampParams 1] by simp_all
  then show ?thesis
    by (simp add: mexFunction_unfold spec_runOffsetUpdate_def spec_user_enabled_def
        spec_item_enabled_def)
qed

theorem driver_gating_witness:
  "2 \<le> length [True, False] \<and>
   mexFunction fx_pf fx_sched fx_sched fx_model (Some [True, False]) fx_store =
     spec_runOffsetUpdate fx_pf fx_sched fx_sched fx_model (Some [True, False]) fx_store \<and>
   spec_runOffsetUpdate fx_pf fx_sched fx_sched fx_model (Some [True, False]) fx_store =
     Some fx_after_user"
proof -
  have l: "2 \<le> length [True, False]"
    by simp
  then have h: "\<forall>fl. Some [True, False] = Some fl \<longrightarrow> 2 \<le> length fl"
    by simp
  note r = driver_gating[OF h, of fx_pf fx_sched fx_sched fx_model fx_store]
  show ?thesis
    by (intro conjI l r r[symmetric, THEN trans, OF fx_mex_user])
qed

text \<open>
  C5. When both phases are enabled, the user phase has run to its end before the item
  phase starts, and the item phase works on the state the user phase left: every new
  \<open>d\<close> offset is computed from statistics whose contributions read the \<open>c\<close> values that
  the user phase has just written.
\<close>

theorem item_phase_reads_fresh_c:
  assumes "mexFunction pf sched1 sched2 m sampParams s = Some s2"
    and "spec_user_enabled m sampParams" "spec_item_enabled m sampParams"
  shows "\<exists>s1. sampleOffsets pf sched1 (userParams m) s = Some s1 \<and>
     sampleOffsets pf sched2 (itemParams m) s1 = Some s2 \<and>
     (\<forall>q<nat (numUsers (itemParams m)). \<forall>k<nat (KM (itemParams m)).
        dbl s2 Arr_d ! (q * nat (KM (itemParams m)) + k) =
          spec_offset (model_d0 m) (1 / model_sigmaSqd0 m) (1 / model_sigmaSqd m)
            (spec_count s1 (itemParams m) (jag s1 Arr_exampsByItem ! q) k)
            (spec_sum s1 (itemParams m) (jag s1 Arr_exampsByItem ! q) k)
            (draw_of sched2 (itemParams m) s1 q k))"
proof -
  from mexFunction_both[OF assms] obtain s1 where
    u: "sampleOffsets pf sched1 (userParams m) s = Some s1"
    and i: "sampleOffsets pf sched2 (itemParams m) s1 = Some s2" by blast
  have "dbl s2 Arr_d ! (q * nat (KM (itemParams m)) + k) =
          spec_offset (model_d0 m) (1 / model_sigmaSqd0 m) (1 / model_sigmaSqd m)
            (spec_count s1 (itemParams m) (jag s1 Arr_exampsByItem ! q) k)
            (spec_sum s1 (itemParams m) (jag s1 Arr_exampsByItem ! q) k)
            (draw_of sched2 (itemParams m) s1 q k)"
    if "q < nat (numUsers (itemParams m))" "k < nat (KM (itemParams m))" for q k
    using sampleOffsets_values[OF i _ _ that] by simp
  with u i show ?thesis by blast
qed

theorem item_phase_reads_fresh_c_witness:
  "mexFunction fx_pf fx_sched fx_sched fx_model None fx_store = Some fx_after_both \<and>
   spec_user_enabled fx_model None \<and> spec_item_enabled fx_model None \<and>
   (\<exists>s1. sampleOffsets fx_pf fx_sched (userParams fx_model) fx_store = Some s1 \<and>
     sampleOffsets fx_pf fx_sched (itemParams fx_model) s1 = Some fx_after_both \<and>
     (\<forall>q<nat (numUsers (itemParams fx_model)). \<forall>k<nat (KM (itemParams fx_model)).
        dbl fx_after_both Arr_d ! (q * nat (KM (itemParams fx_model)) + k) =
          spec_offset (model_d0 fx_model) (1 / model_sigmaSqd0 fx_model) (1 / model_sigmaSqd fx_model)
            (spec_count s1 (itemParams fx_model) (jag s1 Arr_exampsByItem ! q) k)
            (spec_sum s1 (itemParams fx_model) (jag s1 Arr_exampsByItem ! q) k)
            (draw_of fx_sched (itemParams fx_model) s1 q k)))"
  by (intro conjI fx_mex_both fx_enabled(1,2)
      item_phase_reads_fresh_c[OF fx_mex_both fx_enabled(1,2)])

text \<open>
  C6. When the user phase is disabled (\<open>KM = 0\<close>, or the first flag is false), \<open>c\<close> is
  the same after the whole call of the driver as before; when the item phase is disabled,
  \<open>d\<close> is.
\<close>

theorem disabled_phase_leaves_offsets:
  assumes "mexFunction pf sched1 sched2 m sampParams s = Some s'"
  shows "(\<not> spec_user_enabled m sampParams \<longrightarrow> dbl s' Arr_c = dbl s Arr_c) \<and>
         (\<not> spec_item_enabled m sampParams \<longrightarrow> dbl s' Arr_d = dbl s Arr_d)"
proof -
  from assms obtain s1 where
    p1: "(if KM (userParams m) > 0 then do {
               b \<leftarrow> sampFlag sampParams 0;
               if b then sampleOffsets pf sched1 (userParams m) s else Some s }
             else Some s) = Some s1"
    and p2: "(if KU (userParams m) > 0 then do {
        b \<leftarrow> sampFlag sampParams 1;
        if b then sampleOffsets pf sched2 (itemParams m) s1 else Some s1 }
      else Some s1) = Some s'"
    by (auto simp: mexFunction_unfold bind_eq_Some_conv)
  have u_d: "dbl s1 Arr_d = dbl s Arr_d"
    using p1 by (auto simp: bind_eq_Some_conv split: if_splits dest!: sampleOffsets_frame(3)[where q = Arr_d])
  have i_c: "dbl s' Arr_c = dbl s1 Arr_c"
    using p2 by (auto simp: bind_eq_Some_conv split: if_splits dest!: sampleOffsets_frame(3)[where q = Arr_c])
  have u_off: "s1 = s" if "\<not> spec_user_enabled m sampParams"
    using p1 that
    by (cases sampParams)
       (auto simp: bind_eq_Some_conv spec_user_enabled_def sampFlag_def spec_flag_def rd_Some
          split: if_splits)
  have i_off: "s' = s1" if "\<not> spec_item_enabled m sampParams"
    using p2 that
    by (cases sampParams)
       (auto simp: bind_eq_Some_conv spec_item_enabled_def sampFlag_def spec_flag_def rd_Some
          split: if_splits)
  show ?thesis using u_d i_c u_off i_off by auto
qed

theorem disabled_phase_leaves_offsets_witness:
  "mexFunction fx_pf fx_sched fx_sched fx_model (Some [False, True]) fx_store = Some fx_after_item \<and>
   \<not> spec_user_enabled fx_model (Some [False, True]) \<and>
   dbl fx_after_item Arr_c = dbl fx_store Arr_c \<and>
   mexFunction fx_pf fx_sched fx_sched fx_model (Some [True, False]) fx_store = Some fx_after_user \<and>
   \<not> spec_item_enabled fx_model (Some [True, False]) \<and>
   dbl fx_after_user Arr_d = dbl fx_store Arr_d"
  by (intro conjI fx_mex_item fx_mex_user fx_enabled(3,4)
      disabled_phase_leaves_offsets[OF fx_mex_item, THEN conjunct1, THEN mp, OF fx_enabled(3)]
      disabled_phase_leaves_offsets[OF fx_mex_user, THEN conjunct2, THEN mp, OF fx_enabled(4)])

text \<open>
  C9. The two phases do not commute: on the small data set (two users, two items, two
  topics on each side, every deviate 0) the user phase followed by the item phase leaves
  other \<open>d\<close> offsets than the item phase followed by the user phase.
\<close>

theorem phase_order_matters:
  "fx0_user_then_item = Some [- (7/16), - 1, - (5/8), 5/16] \<and>
   fx0_item_then_user = Some [- (25/4), - 1, - (19/4), - (11/2)] \<and>
   fx0_user_then_item \<noteq> fx0_item_then_user"
  by (simp add: fx0_A fx0_B)

subsection \<open>The old offsets do not matter\<close>

text \<open>
  C10. What a call of \<^verbatim>\<open>sampleOffsets\<close> writes does not depend on the content of \<open>c\<close>
  at entry: a run from a store that differs only in that content (the deviates and all
  other inputs being the same) fails exactly when the original run fails, and otherwise
  writes the same offsets into every row, leaves the same generators and the same other
  arrays; when \<open>c\<close> has exactly \<open>numUsers * KM\<close> entries, the two runs return the same
  store. The arrays \<open>d\<close> and \<open>resids\<close> are not the array \<open>c\<close>.
\<close>

theorem new_offsets_independent_of_old:
  assumes "c a \<noteq> d a" "c a \<noteq> resids a" "length cs = length (dbl s (c a))"
  shows "(length (dbl s (c a)) = nat (numUsers a) * nat (KM a) \<longrightarrow>
            sampleOffsets pf sched a (s\<lparr>dbl := (dbl s)(c a := cs)\<rparr>) = sampleOffsets pf sched a s) \<and>
     (sampleOffsets pf sched a (s\<lparr>dbl := (dbl s)(c a := cs)\<rparr>) = None \<longleftrightarrow>
        sampleOffsets pf sched a s = None) \<and>
     (\<forall>s1 s2. sampleOffsets pf sched a s = Some s1 \<and>
          sampleOffsets pf sched a (s\<lparr>dbl := (dbl s)(c a := cs)\<rparr>) = Some s2 \<longrightarrow>
        (\<forall>p<nat (numUsers a). \<forall>i<nat (KM a).
           dbl s2 (c a) ! (p * nat (KM a) + i) = dbl s1 (c a) ! (p * nat (KM a) + i)) \<and>
        (\<forall>q. q \<noteq> c a \<longrightarrow> dbl s2 q = dbl s1 q) \<and> rngs s2 = rngs s1)"
proof -
  define s' where "s' = s\<lparr>dbl := (dbl s)(c a := cs)\<rparr>"
  define n where "n = nat (numUsers a)"
  have "agree_on a {} s s'" using assms(3) by (simp add: agree_on_def s'_def)
  from sampleOffsets_sim[OF this assms(1,2), of pf sched]
  have sim: "rel_option (agree_on a (rows a [0..<n])) (sampleOffsets pf sched a s) (sampleOffsets pf sched a s')"
    by (simp add: n_def)
  have none: "sampleOffsets pf sched a s' = None \<longleftrightarrow> sampleOffsets pf sched a s = None"
    using sim by (cases "sampleOffsets pf sched a s"; cases "sampleOffsets pf sched a s'") simp_all
  have some: "(\<forall>p<n. \<forall>i<nat (KM a).
           dbl s2 (c a) ! (p * nat (KM a) + i) = dbl s1 (c a) ! (p * nat (KM a) + i)) \<and>
        (\<forall>q. q \<noteq> c a \<longrightarrow> dbl s2 q = dbl s1 q) \<and> rngs s2 = rngs s1 \<and>
        (length (dbl s (c a)) = n * nat (KM a) \<longrightarrow> s2 = s1)"
    if r: "sampleOffsets pf sched a s = Some s1" "sampleOffsets pf sched a s' = Some s2" for s1 s2
  proof -
    from sim r have ag: "agree_on a (rows a [0..<n]) s1 s2" by simp
    then have len: "length (dbl s1 (c a)) = length (dbl s2 (c a))"
      and oth: "\<forall>q. q \<noteq> c a \<longrightarrow> dbl s2 q = dbl s1 q" and rg: "rngs s2 = rngs s1"
      and u: "u32 s2 = u32 s1" "jag s2 = jag s1"
      by (simp_all add: agree_on_def)
    have ent: "dbl s2 (c a) ! m = dbl s1 (c a) ! m" if "m \<in> rows a [0..<n]" for m
    proof (cases "m < length (dbl s1 (c a))")
      case True
      with ag that show ?thesis by (simp add: agree_on_def)
    next
      case False
      then show ?thesis using nth_beyond[OF len, of m] by simp
    qed
    have eq: "s2 = s1" if sz: "length (dbl s (c a)) = n * nat (KM a)"
    proof -
      have "length (dbl s1 (c a)) = n * nat (KM a)"
        using sampleOffsets_frame(4)[OF r(1)] sz by simp
      then have "dbl s2 (c a) = dbl s1 (c a)"
        using len ent rows_cover by (intro nth_equalityI) auto
      with oth have "dbl s2 = dbl s1" by (intro ext) metis
      with rg u show ?thesis by simp
    qed
    show ?thesis using ent in_rows oth rg eq by blast
  qed
  have same: "sampleOffsets pf sched a s' = sampleOffsets pf sched a s"
    if "length (dbl s (c a)) = n * nat (KM a)"
  proof (cases "sampleOffsets pf sched a s")
    case None
    with none show ?thesis by simp
  next
    case (Some s1)
    with none obtain s2 where s2: "sampleOffsets pf sched a s' = Some s2" by force
    from some[OF Some s2] that have "s2 = s1" by blast
    with Some s2 show ?thesis by simp
  qed
  show ?thesis
    using none some same unfolding s'_def n_def by blast
qed

theorem new_offsets_independent_of_old_witness:
  "c (userParams fx_model) \<noteq> d (userParams fx_model) \<and>
   c (userParams fx_model) \<noteq> resids (userParams fx_model) \<and>
   length [0, 0, 0, 0 :: real] = length (dbl fx_store (c (userParams fx_model))) \<and>
   length (dbl fx_store (c (userParams fx_model))) =
     nat (numUsers (userParams fx_model)) * nat (KM (userParams fx_model)) \<and>
   sampleOffsets fx_pf fx_sched (userParams fx_model) fx_store = Some fx_after_user \<and>
   sampleOffsets fx_pf fx_sched (userParams fx_model)
     (fx_store\<lparr>dbl := (dbl fx_store)(c (userParams fx_model) := [0, 0, 0, 0])\<rparr>) = Some fx_after_user"
proof -
  note t = new_offsets_independent_of_old[OF fx_user_hyps(1,2) fx_sizes(1), of fx_pf fx_sched]
  from t[THEN conjunct1, THEN mp, OF fx_sizes(2)]
  have "sampleOffsets fx_pf fx_sched (userParams fx_model)
     (fx_store\<lparr>dbl := (dbl fx_store)(c (userParams fx_model) := [0, 0, 0, 0])\<rparr>) = Some fx_after_user"
    by (simp only: fx_user_run)
  then show ?thesis
    by (intro conjI fx_user_hyps(1,2) fx_sizes fx_user_run)
qed

end
